theory Spec2Isabelle
  imports Complex_Main "HOL-Library.Sublist"
begin

section \<open>cdp-cli: the connection context (src/context.ts) and its callers\<close>

text \<open>
  A shallow embedding of \<^verbatim>\<open>CDPContext\<close>. Asynchronous code is modelled by the events
  that drive it (a command is sent, a payload arrives on the socket, a timer fires, the
  socket closes); a thrown exception is a value of type \<open>exn\<close>; JavaScript numbers are
  rationals (no property below depends on rounding); strings are character lists.
\<close>

subsection \<open>Exceptions\<close>

datatype exn =
    SyntaxError   \<comment> \<open>\<^verbatim>\<open>JSON.parse\<close> on text that is not JSON\<close>
  | TypeError     \<comment> \<open>a property read of \<^verbatim>\<open>undefined\<close> or \<^verbatim>\<open>null\<close>\<close>
  | Error string  \<comment> \<open>\<^verbatim>\<open>new Error(message)\<close>\<close>

type_synonym number = rat

subsection \<open>The target directory: getPages, findPage, connect\<close>

record page =
  page_id :: string
  title :: string
  page_url :: string
  page_type :: string
  webSocketDebuggerUrl :: string
  devtoolsFrontendUrl :: "string option"
  description :: "string option"

text \<open>The answer of \<^verbatim>\<open>fetch(cdpUrl + '/json')\<close> with its decoded body.\<close>

record http_response =
  ok :: bool
  statusText :: string
  json_body :: "page list"

text \<open>\<^verbatim>\<open>title.includes(sel)\<close>: \<open>sel\<close> occurs in \<open>title\<close> as a contiguous run.\<close>

fun str_includes :: "string \<Rightarrow> string \<Rightarrow> bool" where
  "str_includes [] sel = (sel = [])"
| "str_includes (c # cs) sel = (prefix sel (c # cs) \<or> str_includes cs sel)"

text \<open>\<^verbatim>\<open>getPages\<close>; the argument is what \<^verbatim>\<open>fetch\<close> gave, a rejection or a response.\<close>

definition getPages :: "exn + http_response \<Rightarrow> exn + page list" where
  "getPages fetched =
     (case fetched of
        Inl e \<Rightarrow> Inl e
      | Inr response \<Rightarrow>
          if \<not> ok response
          then Inl (Error (''Failed to fetch pages: '' @ statusText response))
          else Inr (filter (\<lambda>p. page_type p = ''page'') (json_body response)))"

definition findPage :: "exn + http_response \<Rightarrow> string \<Rightarrow> exn + page" where
  "findPage fetched idOrTitle =
     (case getPages fetched of
        Inl e \<Rightarrow> Inl e
      | Inr pages \<Rightarrow>
          (case find (\<lambda>p. page_id p = idOrTitle \<or> str_includes (title p) idOrTitle) pages of
             None \<Rightarrow> Inl (Error (''Page not found: '' @ idOrTitle))
           | Some page \<Rightarrow> Inr page))"

text \<open>
  \<^verbatim>\<open>connect\<close>: a WebSocket is constructed for the page's endpoint (recorded in the list
  of opened sockets); the promise resolves with the socket on \<^verbatim>\<open>'open'\<close> and rejects on
  \<^verbatim>\<open>'error'\<close>. The first argument is the network: the error an endpoint answers with,
  if any. A socket is named by its position in the list.
\<close>

definition connect ::
  "(string \<Rightarrow> exn option) \<Rightarrow> page \<Rightarrow> string list \<Rightarrow> (exn + nat) \<times> string list" where
  "connect net page sockets =
     (let sockets' = sockets @ [webSocketDebuggerUrl page] in
      case net (webSocketDebuggerUrl page) of
        Some error \<Rightarrow> (Inl error, sockets')
      | None \<Rightarrow> (Inr (length sockets), sockets'))"

text \<open>
  The first two statements of every page command (\<^verbatim>\<open>listConsole\<close>, \<^verbatim>\<open>listNetwork\<close>,
  \<^verbatim>\<open>navigate\<close>, ...): \<^verbatim>\<open>page = await context.findPage(sel); ws = await context.connect(page)\<close>.
\<close>

definition findPage_then_connect ::
  "(string \<Rightarrow> exn option) \<Rightarrow> exn + http_response \<Rightarrow> string \<Rightarrow> string list
     \<Rightarrow> (exn + nat) \<times> string list" where
  "findPage_then_connect net fetched sel sockets =
     (case findPage fetched sel of
        Inl e \<Rightarrow> (Inl e, sockets)
      | Inr page \<Rightarrow> connect net page sockets)"

subsection \<open>Wire messages\<close>

text \<open>A value of TypeScript type \<^verbatim>\<open>any\<close> that the code only passes on: a JSON value.\<close>

datatype json =
    JNull | JBool bool | JNum number | JStr string | JArr "json list" | JObj "(string \<times> json) list"

type_synonym headers = "(string \<times> string) list"

text \<open>
  An element of \<^verbatim>\<open>params.args\<close> of a console call. The listener reads three things of
  it, and the record holds those: \<^verbatim>\<open>arg.value\<close> when it is defined, as \<^verbatim>\<open>String()\<close>
  renders it; \<^verbatim>\<open>arg.description\<close> when it is defined; and the text \<^verbatim>\<open>JSON.stringify(arg)\<close>.
\<close>

record remote_object =
  arg_value :: "string option"
  arg_description :: "string option"
  arg_json :: string

record exception_details =
  ex_text :: string
  lineNumber :: "number option"
  ex_url :: "string option"

record request =
  rq_url :: string
  rq_method :: string
  rq_headers :: headers

record response =
  rs_url :: "string option"
  rs_status :: number
  rs_headers :: headers
  rs_encodedDataLength :: "number option"

text \<open>
  \<^verbatim>\<open>message.params\<close>, by the shapes of the protocol's notifications: the properties the
  listeners read. \<open>OtherParams\<close> is an object with none of them.
\<close>

datatype params =
    ConsoleAPICalled string "remote_object list" "number option"
      \<comment> \<open>\<^verbatim>\<open>{type, args, timestamp}\<close>\<close>
  | ExceptionThrown exception_details "number option"
      \<comment> \<open>\<^verbatim>\<open>{exceptionDetails, timestamp}\<close>\<close>
  | RequestWillBeSent string request number "string option"
      \<comment> \<open>\<^verbatim>\<open>{requestId, request, timestamp, type}\<close>\<close>
  | ResponseReceived string response
      \<comment> \<open>\<^verbatim>\<open>{requestId, response}\<close>\<close>
  | LoadingFinished string "number option"
      \<comment> \<open>\<^verbatim>\<open>{requestId, encodedDataLength}\<close>\<close>
  | OtherParams

text \<open>\<^verbatim>\<open>message.error\<close> when it is an object: its \<^verbatim>\<open>message\<close> property, if any.\<close>

datatype cdp_error = CDPError (err_message: "string option")

text \<open>\<^verbatim>\<open>interface CDPMessage\<close>.\<close>

record cdp_message =
  msg_id :: "number option"
  msg_method :: "string option"
  params :: "params option"
  result :: "json option"
  error :: "cdp_error option"

text \<open>
  The bytes of one inbound frame, by what \<^verbatim>\<open>JSON.parse(data.toString())\<close> makes of them:
  it throws a SyntaxError (\<open>NotJSON\<close>), returns \<^verbatim>\<open>null\<close> (\<open>JSONNull\<close>), or returns a
  value whose properties can be read (\<open>Message\<close>; a number, a string, a boolean or an
  array reads as a message with no property set).
\<close>

datatype payload = NotJSON | JSONNull | Message cdp_message

text \<open>The frames Chrome sends (spec section 6): a notification, a result, an error.\<close>

definition notification :: "string \<Rightarrow> params \<Rightarrow> payload" where
  "notification method ps =
     Message \<lparr>msg_id = None, msg_method = Some method, params = Some ps,
              result = None, error = None\<rparr>"

definition command_result :: "number \<Rightarrow> json option \<Rightarrow> payload" where
  "command_result i r =
     Message \<lparr>msg_id = Some i, msg_method = None, params = None, result = r, error = None\<rparr>"

definition command_error :: "number \<Rightarrow> cdp_error \<Rightarrow> payload" where
  "command_error i e =
     Message \<lparr>msg_id = Some i, msg_method = None, params = None, result = None,
              error = Some e\<rparr>"

subsection \<open>The context object\<close>

text \<open>\<^verbatim>\<open>interface ConsoleMessage\<close> and \<^verbatim>\<open>interface NetworkRequest\<close>.\<close>

record console_message =
  cm_id :: string
  cm_type :: string
  cm_timestamp :: number
  cm_text :: string
  cm_source :: string
  cm_line :: "number option"
  cm_url :: "string option"
  cm_args :: "remote_object list option"

record network_request =
  nr_id :: string
  nr_url :: string
  nr_method :: string
  nr_status :: "number option"
  nr_type :: "string option"
  nr_size :: "number option"
  nr_timestamp :: number
  requestHeaders :: "headers option"
  responseHeaders :: "headers option"

text \<open>
  A JavaScript \<^verbatim>\<open>Map\<close> keeps its keys in insertion order; \<^verbatim>\<open>set\<close> on a key that is
  present replaces the value where it stands, \<^verbatim>\<open>set\<close> on a new key appends.
\<close>

fun map_set :: "'k \<Rightarrow> 'v \<Rightarrow> ('k \<times> 'v) list \<Rightarrow> ('k \<times> 'v) list" where
  "map_set k v [] = [(k, v)]"
| "map_set k v ((k', v') # m) = (if k' = k then (k, v) # m else (k', v') # map_set k v m)"

text \<open>
  The request objects are shared: the listener's local map \<^verbatim>\<open>requests\<close> and
  \<^verbatim>\<open>this.networkRequests\<close> hold references to the same object, and an assignment to a
  field is seen through both. So the objects live in a store (\<open>heap\<close>), a map holds
  addresses, and a new object takes the next address.
\<close>

type_synonym addr = nat

record "context" =
  messageId :: number
  consoleMessages :: "(string \<times> console_message) list"
  networkRequests :: "(string \<times> addr) list"
  heap :: "network_request list"

definition new_context :: "context" where
  "new_context = \<lparr>messageId = 1, consoleMessages = [], networkRequests = [], heap = []\<rparr>"

definition getConsoleMessages :: "context \<Rightarrow> console_message list" where
  "getConsoleMessages this = map snd (consoleMessages this)"

definition getNetworkRequests :: "context \<Rightarrow> network_request list" where
  "getNetworkRequests this = map (\<lambda>(k, a). heap this ! a) (networkRequests this)"

text \<open>
  What the environment answers while one listener runs: \<^verbatim>\<open>Date.now()\<close> in the entry's id,
  \<^verbatim>\<open>Math.random().toString(36).substring(2, 11)\<close>, and \<^verbatim>\<open>Date.now()\<close> read for a
  timestamp.
\<close>

record env =
  now_id :: nat
  random_suffix :: string
  now_ts :: nat

fun decimal :: "nat \<Rightarrow> string" where
  "decimal n =
     (if n < 10 then [''0123456789'' ! n]
      else decimal (n div 10) @ [''0123456789'' ! (n mod 10)])"

declare decimal.simps [simp del]

fun join :: "string \<Rightarrow> string list \<Rightarrow> string" where
  "join sep [] = []"
| "join sep [x] = x"
| "join sep (x # y # ys) = x @ sep @ join sep (y # ys)"

text \<open>\<^verbatim>\<open>timestamp || Date.now()\<close>: an absent or zero timestamp is falsy.\<close>

definition timestamp_or_now :: "number option \<Rightarrow> env \<Rightarrow> number" where
  "timestamp_or_now timestamp e =
     (case timestamp of
        None \<Rightarrow> of_nat (now_ts e)
      | Some t \<Rightarrow> if t = 0 then of_nat (now_ts e) else t)"

definition fresh_id :: "env \<Rightarrow> string" where
  "fresh_id e = ''msg_'' @ decimal (now_id e) @ ''_'' @ random_suffix e"

text \<open>
  A listener returns the state it leaves and the exception it throws, if any: what it
  has assigned before a throw stays assigned. \<open>and_then\<close> is the sequence of two
  statements.
\<close>

definition and_then ::
  "('s \<Rightarrow> 's \<times> exn option) \<Rightarrow> ('s \<Rightarrow> 's \<times> exn option) \<Rightarrow> 's \<Rightarrow> 's \<times> exn option" where
  "and_then f g s = (case f s of (s', Some x) \<Rightarrow> (s', Some x) | (s', None) \<Rightarrow> g s')"

subsection \<open>setupConsoleCollection\<close>

definition arg_text :: "remote_object \<Rightarrow> string" where
  "arg_text arg =
     (case arg_value arg of
        Some v \<Rightarrow> v
      | None \<Rightarrow> (case arg_description arg of Some d \<Rightarrow> d | None \<Rightarrow> arg_json arg))"

definition consoleAPICalled_entry ::
  "env \<Rightarrow> string \<Rightarrow> remote_object list \<Rightarrow> number option \<Rightarrow> console_message" where
  "consoleAPICalled_entry e type args timestamp =
     \<lparr>cm_id = fresh_id e, cm_type = type, cm_timestamp = timestamp_or_now timestamp e,
      cm_text = join '' '' (map arg_text args), cm_source = ''console-api'',
      cm_line = None, cm_url = None, cm_args = Some args\<rparr>"

definition exceptionThrown_entry ::
  "env \<Rightarrow> exception_details \<Rightarrow> number option \<Rightarrow> console_message" where
  "exceptionThrown_entry e exceptionDetails timestamp =
     \<lparr>cm_id = fresh_id e, cm_type = ''error'',
      cm_timestamp = timestamp_or_now timestamp e,
      cm_text = ex_text exceptionDetails, cm_source = ''exception'',
      cm_line = lineNumber exceptionDetails, cm_url = ex_url exceptionDetails,
      cm_args = None\<rparr>"

definition store_console :: "console_message \<Rightarrow> context \<Rightarrow> context" where
  "store_console consoleMsg this =
     this\<lparr>consoleMessages := map_set (cm_id consoleMsg) consoleMsg (consoleMessages this)\<rparr>"

definition on_consoleAPICalled :: "env \<Rightarrow> cdp_message \<Rightarrow> context \<Rightarrow> context \<times> exn option" where
  "on_consoleAPICalled e message this =
     (if msg_method message = Some ''Runtime.consoleAPICalled'' then
        (case params message of
           Some (ConsoleAPICalled type args timestamp) \<Rightarrow>
             (store_console (consoleAPICalled_entry e type args timestamp) this, None)
         | _ \<Rightarrow> (this, Some TypeError))
      else (this, None))"

definition on_exceptionThrown :: "env \<Rightarrow> cdp_message \<Rightarrow> context \<Rightarrow> context \<times> exn option" where
  "on_exceptionThrown e message this =
     (if msg_method message = Some ''Runtime.exceptionThrown'' then
        (case params message of
           Some (ExceptionThrown exceptionDetails timestamp) \<Rightarrow>
             (store_console (exceptionThrown_entry e exceptionDetails timestamp) this, None)
         | _ \<Rightarrow> (this, Some TypeError))
      else (this, None))"

text \<open>The listener that \<^verbatim>\<open>setupConsoleCollection\<close> registers for \<^verbatim>\<open>'message'\<close>.\<close>

definition console_listener :: "env \<Rightarrow> payload \<Rightarrow> context \<Rightarrow> context \<times> exn option" where
  "console_listener e data this =
     (case data of
        NotJSON \<Rightarrow> (this, Some SyntaxError)
      | JSONNull \<Rightarrow> (this, Some TypeError)
      | Message message \<Rightarrow>
          and_then (on_consoleAPICalled e message) (on_exceptionThrown e message) this)"

text \<open>
  \<^verbatim>\<open>listConsole\<close>, "Filter by type if specified": an absent or empty \<^verbatim>\<open>options.type\<close>
  is falsy and leaves the list as it is.
\<close>

definition filter_by_type :: "string option \<Rightarrow> console_message list \<Rightarrow> console_message list" where
  "filter_by_type type messages =
     (case type of
        None \<Rightarrow> messages
      | Some t \<Rightarrow> if t = [] then messages else filter (\<lambda>m. cm_type m = t) messages)"

text \<open>
  The two console notifications, as Chrome sends them, and the entry the listener builds
  for each.
\<close>

datatype console_event =
    ConsoleCall string "remote_object list" "number option"
  | UncaughtException exception_details "number option"

fun console_frame :: "console_event \<Rightarrow> payload" where
  "console_frame (ConsoleCall type args timestamp) =
     notification ''Runtime.consoleAPICalled'' (ConsoleAPICalled type args timestamp)"
| "console_frame (UncaughtException exceptionDetails timestamp) =
     notification ''Runtime.exceptionThrown'' (ExceptionThrown exceptionDetails timestamp)"

fun console_entry :: "env \<Rightarrow> console_event \<Rightarrow> console_message" where
  "console_entry e (ConsoleCall type args timestamp) =
     consoleAPICalled_entry e type args timestamp"
| "console_entry e (UncaughtException exceptionDetails timestamp) =
     exceptionThrown_entry e exceptionDetails timestamp"

subsection \<open>setupNetworkCollection\<close>

text \<open>
  The state one network listener works on: its closure's local map \<^verbatim>\<open>requests\<close> and the
  context.
\<close>

type_synonym collector = "(string \<times> addr) list \<times> context"

definition update_object ::
  "addr \<Rightarrow> (network_request \<Rightarrow> network_request) \<Rightarrow> context \<Rightarrow> context" where
  "update_object a f this = this\<lparr>heap := (heap this)[a := f (heap this ! a)]\<rparr>"

definition on_requestWillBeSent :: "cdp_message \<Rightarrow> collector \<Rightarrow> collector \<times> exn option" where
  "on_requestWillBeSent message st =
     (case st of (requests, this) \<Rightarrow>
      if msg_method message = Some ''Network.requestWillBeSent'' then
        (case params message of
           Some (RequestWillBeSent requestId request timestamp type) \<Rightarrow>
             (case map_of requests requestId of
                Some existing \<Rightarrow>
                  ((requests,
                    update_object existing
                      (\<lambda>r. r\<lparr>nr_url := rq_url request, nr_method := rq_method request,
                              nr_timestamp := timestamp * 1000, nr_type := type,
                              requestHeaders := Some (rq_headers request)\<rparr>) this), None)
              | None \<Rightarrow>
                  ((map_set requestId (length (heap this)) requests,
                    this\<lparr>heap := heap this @
                      [\<lparr>nr_id = requestId, nr_url = rq_url request,
                        nr_method = rq_method request, nr_status = None, nr_type = type,
                        nr_size = None, nr_timestamp = timestamp * 1000,
                        requestHeaders = Some (rq_headers request),
                        responseHeaders = None\<rparr>]\<rparr>), None))
         | _ \<Rightarrow> (st, Some TypeError))
      else (st, None))"

definition on_responseReceived ::
  "env \<Rightarrow> cdp_message \<Rightarrow> collector \<Rightarrow> collector \<times> exn option" where
  "on_responseReceived e message st =
     (case st of (requests, this) \<Rightarrow>
      if msg_method message = Some ''Network.responseReceived'' then
        (case params message of
           Some (ResponseReceived requestId response) \<Rightarrow>
             (let (req, requests', this') =
                    (case map_of requests requestId of
                       Some req \<Rightarrow> (req, requests, this)
                     | None \<Rightarrow>
                         (length (heap this),
                          map_set requestId (length (heap this)) requests,
                          this\<lparr>heap := heap this @
                            [\<lparr>nr_id = requestId,
                              nr_url = (case rs_url response of
                                          None \<Rightarrow> [] | Some u \<Rightarrow> u),
                              nr_method = ''GET'', nr_status = None, nr_type = None,
                              nr_size = None, nr_timestamp = of_nat (now_ts e),
                              requestHeaders = None, responseHeaders = None\<rparr>]\<rparr>));
                  this'' = update_object req
                      (\<lambda>r. r\<lparr>nr_status := Some (rs_status response),
                              responseHeaders := Some (rs_headers response),
                              nr_size := (case rs_encodedDataLength response of
                                            None \<Rightarrow> nr_size r | Some n \<Rightarrow> Some n)\<rparr>) this'
              in ((requests',
                   this''\<lparr>networkRequests := map_set requestId req (networkRequests this'')\<rparr>),
                  None))
         | _ \<Rightarrow> (st, Some TypeError))
      else (st, None))"

text \<open>
  \<^verbatim>\<open>const { requestId, encodedDataLength } = message.params\<close>: the two properties as each
  shape of params has them at its top level.
\<close>

fun requestId_of :: "params \<Rightarrow> string option" where
  "requestId_of (RequestWillBeSent requestId request timestamp type) = Some requestId"
| "requestId_of (ResponseReceived requestId response) = Some requestId"
| "requestId_of (LoadingFinished requestId encodedDataLength) = Some requestId"
| "requestId_of _ = None"

fun encodedDataLength_of :: "params \<Rightarrow> number option" where
  "encodedDataLength_of (LoadingFinished requestId encodedDataLength) = encodedDataLength"
| "encodedDataLength_of _ = None"

definition on_loadingFinished :: "cdp_message \<Rightarrow> collector \<Rightarrow> collector \<times> exn option" where
  "on_loadingFinished message st =
     (case st of (requests, this) \<Rightarrow>
      if msg_method message = Some ''Network.loadingFinished'' then
        (case params message of
           None \<Rightarrow> (st, Some TypeError)
         | Some ps \<Rightarrow>
             (case requestId_of ps of
                None \<Rightarrow> (st, None)
              | Some requestId \<Rightarrow>
                  (case map_of (networkRequests this) requestId of
                     None \<Rightarrow> (st, None)
                   | Some req \<Rightarrow>
                       ((requests,
                         update_object req
                           (\<lambda>r. r\<lparr>nr_size := encodedDataLength_of ps\<rparr>) this), None))))
      else (st, None))"

text \<open>The listener that \<^verbatim>\<open>setupNetworkCollection\<close> registers for \<^verbatim>\<open>'message'\<close>.\<close>

definition network_listener :: "env \<Rightarrow> payload \<Rightarrow> collector \<Rightarrow> collector \<times> exn option" where
  "network_listener e data st =
     (case data of
        NotJSON \<Rightarrow> (st, Some SyntaxError)
      | JSONNull \<Rightarrow> (st, Some TypeError)
      | Message message \<Rightarrow>
          and_then (on_requestWillBeSent message)
            (and_then (on_responseReceived e message) (on_loadingFinished message)) st)"

text \<open>
  A listener fed a sequence of frames, each with the environment's answers; the
  exceptions thrown on the way are collected and the next frame is delivered all the same.
\<close>

fun feed ::
  "(env \<Rightarrow> payload \<Rightarrow> 's \<Rightarrow> 's \<times> exn option) \<Rightarrow> 's \<Rightarrow> (env \<times> payload) list \<Rightarrow> 's \<times> exn list" where
  "feed listener st [] = (st, [])"
| "feed listener st ((e, data) # rest) =
     (case listener e data st of
        (st', x) \<Rightarrow>
          (case feed listener st' rest of
             (st'', xs) \<Rightarrow> (st'', (case x of None \<Rightarrow> xs | Some ex \<Rightarrow> ex # xs))))"

text \<open>The three network notifications, as Chrome sends them.\<close>

definition start :: "string \<Rightarrow> request \<Rightarrow> number \<Rightarrow> string option \<Rightarrow> payload" where
  "start k request timestamp type =
     notification ''Network.requestWillBeSent'' (RequestWillBeSent k request timestamp type)"

definition response_received :: "string \<Rightarrow> response \<Rightarrow> payload" where
  "response_received k response =
     notification ''Network.responseReceived'' (ResponseReceived k response)"

definition finish :: "string \<Rightarrow> number option \<Rightarrow> payload" where
  "finish k encodedDataLength =
     notification ''Network.loadingFinished'' (LoadingFinished k encodedDataLength)"

subsection \<open>The socket: sendCommand, the listeners, the timers\<close>

text \<open>
  The state of one session: the context, the local map of each
  \<^verbatim>\<open>setupNetworkCollection\<close> call, the socket's \<^verbatim>\<open>'message'\<close> listeners in the order of
  their registration, the armed timeouts (by command id, with the method the timeout's
  message names), the promise \<^verbatim>\<open>sendCommand\<close> returned for each id, and the frames
  handed to \<^verbatim>\<open>ws.send\<close>.
\<close>

datatype listener =
    CommandHandler number   \<comment> \<open>\<^verbatim>\<open>messageHandler\<close> of the \<^verbatim>\<open>sendCommand\<close> call with this id\<close>
  | ConsoleCollector
  | NetworkCollector nat    \<comment> \<open>with the index of its closure's \<^verbatim>\<open>requests\<close>\<close>

datatype outcome = Pending | Resolved "json option" | Rejected exn

record outbound =
  out_id :: number
  out_method :: string
  out_params :: "json option"

record session =
  ctx :: "context"
  closures :: "(string \<times> addr) list list"
  listeners :: "listener list"
  timers :: "number \<rightharpoonup> string"
  promises :: "number \<rightharpoonup> outcome"
  sent :: "outbound list"
  closed :: bool

definition new_session :: session where
  "new_session = \<lparr>ctx = new_context, closures = [], listeners = [], timers = Map.empty,
                   promises = Map.empty, sent = [], closed = False\<rparr>"

text \<open>A promise settles once: \<^verbatim>\<open>resolve\<close> and \<^verbatim>\<open>reject\<close> on a settled promise do nothing.\<close>

definition settle :: "number \<Rightarrow> outcome \<Rightarrow> (number \<rightharpoonup> outcome) \<Rightarrow> (number \<rightharpoonup> outcome)" where
  "settle i out ps = (case ps i of Some Pending \<Rightarrow> ps(i \<mapsto> out) | _ \<Rightarrow> ps)"

text \<open>
  \<^verbatim>\<open>sendCommand\<close> up to the point where it returns its promise: the id is taken and the
  counter incremented, the timeout is armed, the handler registered, the frame sent.
  The counter is exact here; the JavaScript number stops growing at \<open>2\<^sup>5\<^sup>3\<close>, beyond
  any session. The result is the id, by which the call is known, and the new state.
\<close>

definition sendCommand :: "string \<Rightarrow> json option \<Rightarrow> session \<Rightarrow> number \<times> session" where
  "sendCommand method ps s =
     (let cid = messageId (ctx s) in
      (cid, s\<lparr>ctx := (ctx s)\<lparr>messageId := cid + 1\<rparr>,
             promises := (promises s)(cid \<mapsto> Pending),
             timers := (timers s)(cid \<mapsto> method),
             listeners := listeners s @ [CommandHandler cid],
             sent := sent s @ [\<lparr>out_id = cid, out_method = method, out_params = ps\<rparr>]\<rparr>))"

text \<open>\<^verbatim>\<open>message.error.message || 'CDP command failed'\<close>.\<close>

definition error_text :: "cdp_error \<Rightarrow> string" where
  "error_text e =
     (case err_message e of
        None \<Rightarrow> ''CDP command failed''
      | Some m \<Rightarrow> if m = [] then ''CDP command failed'' else m)"

definition messageHandler :: "number \<Rightarrow> payload \<Rightarrow> session \<Rightarrow> session \<times> exn option" where
  "messageHandler cid data s =
     (case data of
        NotJSON \<Rightarrow> (s, Some SyntaxError)
      | JSONNull \<Rightarrow> (s, Some TypeError)
      | Message message \<Rightarrow>
          if msg_id message = Some cid then
            (s\<lparr>timers := (timers s)(cid := None),
               listeners := remove1 (CommandHandler cid) (listeners s),
               promises :=
                 settle cid
                   (case error message of
                      Some e \<Rightarrow> Rejected (Error (error_text e))
                    | None \<Rightarrow> Resolved (result message))
                   (promises s)\<rparr>, None)
          else (s, None))"

text \<open>The callback of \<^verbatim>\<open>setTimeout(..., 30000)\<close>; a cleared timeout does not run.\<close>

definition timeout_callback :: "number \<Rightarrow> session \<Rightarrow> session" where
  "timeout_callback cid s =
     (case timers s cid of
        None \<Rightarrow> s
      | Some method \<Rightarrow>
          s\<lparr>timers := (timers s)(cid := None),
            listeners := remove1 (CommandHandler cid) (listeners s),
            promises := settle cid (Rejected (Error (''Command timeout: '' @ method)))
                          (promises s)\<rparr>)"

definition setupConsoleCollection :: "session \<Rightarrow> session" where
  "setupConsoleCollection s = s\<lparr>listeners := listeners s @ [ConsoleCollector]\<rparr>"

definition setupNetworkCollection :: "session \<Rightarrow> session" where
  "setupNetworkCollection s =
     s\<lparr>closures := closures s @ [[]],
       listeners := listeners s @ [NetworkCollector (length (closures s))]\<rparr>"

text \<open>One listener called with a frame.\<close>

definition call_listener :: "env \<Rightarrow> payload \<Rightarrow> listener \<Rightarrow> session \<Rightarrow> session \<times> exn option" where
  "call_listener e data l s =
     (case l of
        CommandHandler cid \<Rightarrow> messageHandler cid data s
      | ConsoleCollector \<Rightarrow>
          (case console_listener e data (ctx s) of (this, x) \<Rightarrow> (s\<lparr>ctx := this\<rparr>, x))
      | NetworkCollector c \<Rightarrow>
          if c < length (closures s) then
            (case network_listener e data (closures s ! c, ctx s) of
               ((requests, this), x) \<Rightarrow>
                 (s\<lparr>ctx := this, closures := (closures s)[c := requests]\<rparr>, x))
          else (s, None))"

text \<open>
  \<^verbatim>\<open>emit('message', data)\<close>: the listeners registered when the frame arrives are called
  in order, each with the environment's answers for its turn; a listener that throws
  ends the emission, and those after it are not called.
\<close>

fun emit_to ::
  "(nat \<Rightarrow> env) \<Rightarrow> payload \<Rightarrow> nat \<Rightarrow> listener list \<Rightarrow> session \<Rightarrow> session \<times> exn option" where
  "emit_to es data n [] s = (s, None)"
| "emit_to es data n (l # ls) s =
     (case call_listener (es n) data l s of
        (s', Some x) \<Rightarrow> (s', Some x)
      | (s', None) \<Rightarrow> emit_to es data (Suc n) ls s')"

definition emit :: "(nat \<Rightarrow> env) \<Rightarrow> payload \<Rightarrow> session \<Rightarrow> session \<times> exn option" where
  "emit es data s = emit_to es data 0 (listeners s) s"

text \<open>
  What happens to a session, one event at a time. \<open>Close\<close> is the socket closing:
  the context registers no listener for \<^verbatim>\<open>'close'\<close>, so only the socket's state changes.
\<close>

datatype event =
    SendCommand string "json option"
  | Receive payload "nat \<Rightarrow> env"
  | TimerFired number
  | Close
  | SetupConsoleCollection
  | SetupNetworkCollection

fun step :: "session \<Rightarrow> event \<Rightarrow> session \<times> exn option" where
  "step s (SendCommand method ps) = (snd (sendCommand method ps s), None)"
| "step s (Receive data es) = emit es data s"
| "step s (TimerFired cid) = (timeout_callback cid s, None)"
| "step s Close = (s\<lparr>closed := True\<rparr>, None)"
| "step s SetupConsoleCollection = (setupConsoleCollection s, None)"
| "step s SetupNetworkCollection = (setupNetworkCollection s, None)"

text \<open>
  A run of events; the exceptions that escaped a listener are collected, and the run
  goes on after each.
\<close>

fun run :: "session \<Rightarrow> event list \<Rightarrow> session \<times> exn list" where
  "run s [] = (s, [])"
| "run s (ev # evs) =
     (case step s ev of
        (s', x) \<Rightarrow>
          (case run s' evs of
             (s'', xs) \<Rightarrow> (s'', (case x of None \<Rightarrow> xs | Some ex \<Rightarrow> ex # xs))))"

text \<open>
  \<^verbatim>\<open>requests.get(k)\<close>, followed to the object: the request the listener holds for key \<open>k\<close>.
\<close>

definition known_request :: "collector \<Rightarrow> string \<Rightarrow> network_request option" where
  "known_request st k =
     (case st of (requests, this) \<Rightarrow> map_option (\<lambda>a. heap this ! a) (map_of requests k))"

text \<open>
  What holds of the state of one network listener working alone on a context: every
  address in \<^verbatim>\<open>requests\<close> is allocated and its object carries the key as its id, a key of
  \<^verbatim>\<open>this.networkRequests\<close> refers to the same object as in \<^verbatim>\<open>requests\<close>, and no key
  stands twice.
\<close>

definition collector_ok :: "collector \<Rightarrow> bool" where
  "collector_ok st =
     (case st of (requests, this) \<Rightarrow>
        (\<forall>k a. map_of requests k = Some a \<longrightarrow>
               a < length (heap this) \<and> nr_id (heap this ! a) = k)
      \<and> (\<forall>k a. map_of (networkRequests this) k = Some a \<longrightarrow> map_of requests k = Some a)
      \<and> distinct (map fst (networkRequests this)))"

text \<open>
  What holds of every session that started fresh: a command is pending exactly while its
  handler is registered and exactly while its timeout is armed, the ids in use are below
  the counter, no handler is registered twice, and an armed timeout names the method of
  the frame that was sent with its id.
\<close>

definition session_ok :: "session \<Rightarrow> bool" where
  "session_ok s =
     ((\<forall>i. promises s i = Some Pending \<longleftrightarrow> CommandHandler i \<in> set (listeners s))
    \<and> (\<forall>i. timers s i \<noteq> None \<longleftrightarrow> CommandHandler i \<in> set (listeners s))
    \<and> (\<forall>i. promises s i \<noteq> None \<longrightarrow> i < messageId (ctx s))
    \<and> (\<forall>i. count_list (listeners s) (CommandHandler i) \<le> 1)
    \<and> (\<forall>i m. timers s i = Some m \<longrightarrow>
          (\<exists>ps. \<lparr>out_id = i, out_method = m, out_params = ps\<rparr> \<in> set (sent s))))"

text \<open>Every network listener of a session that started fresh has its closure.\<close>

definition closures_ok :: "session \<Rightarrow> bool" where
  "closures_ok s = (\<forall>c. NetworkCollector c \<in> set (listeners s) \<longrightarrow> c < length (closures s))"

section \<open>Properties\<close>

subsection \<open>Page lookup\<close>

lemma includes_iff_sublist: "str_includes t sel \<longleftrightarrow> sublist sel t"
  by (induction t) (auto simp: sublist_Cons_right)

lemma includes_iff_append: "str_includes t sel \<longleftrightarrow> (\<exists>before after. t = before @ sel @ after)"
  by (simp add: includes_iff_sublist sublist_def)

lemma find_filter_conj: "find P (filter Q xs) = find (\<lambda>x. Q x \<and> P x) xs"
  by (induction xs) auto

lemma find_Some_first:
  "find P xs = Some x \<longleftrightarrow> (\<exists>before after. xs = before @ x # after \<and> P x \<and> (\<forall>y\<in>set before. \<not> P y))"
proof (induction xs)
  case Nil
  then show ?case by simp
next
  case (Cons a xs)
  show ?case
  proof (cases "P a")
    case True
    have "(\<exists>before after. a # xs = before @ x # after \<and> P x \<and> (\<forall>y\<in>set before. \<not> P y)) \<longleftrightarrow> a = x"
    proof
      assume "\<exists>before after. a # xs = before @ x # after \<and> P x \<and> (\<forall>y\<in>set before. \<not> P y)"
      then obtain before after where
        h: "a # xs = before @ x # after" "\<forall>y\<in>set before. \<not> P y" by blast
      show "a = x"
      proof (cases before)
        case Nil
        with h show ?thesis by simp
      next
        case (Cons b bs)
        with h True show ?thesis by auto
      qed
    next
      assume "a = x"
      with True have "a # xs = [] @ x # xs \<and> P x \<and> (\<forall>y\<in>set []. \<not> P y)" by simp
      then show "\<exists>before after. a # xs = before @ x # after \<and> P x \<and> (\<forall>y\<in>set before. \<not> P y)"
        by blast
    qed
    with True show ?thesis by simp
  next
    case False
    have "(\<exists>before after. a # xs = before @ x # after \<and> P x \<and> (\<forall>y\<in>set before. \<not> P y))
          \<longleftrightarrow> (\<exists>before after. xs = before @ x # after \<and> P x \<and> (\<forall>y\<in>set before. \<not> P y))"
    proof
      assume "\<exists>before after. a # xs = before @ x # after \<and> P x \<and> (\<forall>y\<in>set before. \<not> P y)"
      then obtain before after where
        h: "a # xs = before @ x # after" "P x" "\<forall>y\<in>set before. \<not> P y" by blast
      show "\<exists>before after. xs = before @ x # after \<and> P x \<and> (\<forall>y\<in>set before. \<not> P y)"
      proof (cases before)
        case Nil
        with h False show ?thesis by simp
      next
        case (Cons b bs)
        with h have "xs = bs @ x # after \<and> P x \<and> (\<forall>y\<in>set bs. \<not> P y)" by simp
        then show ?thesis by blast
      qed
    next
      assume "\<exists>before after. xs = before @ x # after \<and> P x \<and> (\<forall>y\<in>set before. \<not> P y)"
      then obtain before after where
        h: "xs = before @ x # after" "P x" "\<forall>y\<in>set before. \<not> P y" by blast
      with False have "a # xs = (a # before) @ x # after \<and> P x \<and> (\<forall>y\<in>set (a # before). \<not> P y)"
        by simp
      then show "\<exists>before after. a # xs = before @ x # after \<and> P x \<and> (\<forall>y\<in>set before. \<not> P y)"
        by blast
    qed
    with False Cons.IH show ?thesis by simp
  qed
qed

lemma findPage_as_find:
  "ok r \<Longrightarrow> findPage (Inr r) sel =
     (case find (\<lambda>p. page_type p = ''page'' \<and> (page_id p = sel \<or> str_includes (title p) sel))
             (json_body r) of
        None \<Rightarrow> Inl (Error (''Page not found: '' @ sel))
      | Some p \<Rightarrow> Inr p)"
  by (simp add: findPage_def getPages_def find_filter_conj)

text \<open>
  C10. Page lookup by selector considers only the directory entries of type \<open>page\<close>;
  it returns the first entry, in the order of the directory's list, that is a page and
  whose id equals the selector or whose title contains the selector as a substring (so
  of several matching pages the earliest listed wins, and no other target is ever
  returned); when no entry qualifies it fails with "Page not found" and the command
  opens no socket.
\<close>

theorem findPage_first_matching_page:
  assumes "ok r"
  shows "(findPage (Inr r) sel = Inr p \<longleftrightarrow>
            (\<exists>before after. json_body r = before @ p # after
               \<and> page_type p = ''page''
               \<and> (page_id p = sel \<or> (\<exists>l r. title p = l @ sel @ r))
               \<and> (\<forall>q\<in>set before. \<not> (page_type q = ''page''
                      \<and> (page_id q = sel \<or> (\<exists>l r. title q = l @ sel @ r))))))
       \<and> ((\<forall>q\<in>set (json_body r). \<not> (page_type q = ''page''
                      \<and> (page_id q = sel \<or> (\<exists>l r. title q = l @ sel @ r))))
            \<longrightarrow> findPage (Inr r) sel = Inl (Error (''Page not found: '' @ sel))
              \<and> findPage_then_connect net (Inr r) sel sockets
                  = (Inl (Error (''Page not found: '' @ sel)), sockets))"
proof -
  let ?P = "\<lambda>p. page_type p = ''page'' \<and> (page_id p = sel \<or> str_includes (title p) sel)"
  have code: "findPage (Inr r) sel =
      (case find ?P (json_body r) of
         None \<Rightarrow> Inl (Error (''Page not found: '' @ sel)) | Some p \<Rightarrow> Inr p)"
    using assms by (rule findPage_as_find)
  have "findPage (Inr r) sel = Inr p \<longleftrightarrow> find ?P (json_body r) = Some p"
    by (simp add: code split: option.splits)
  also have "\<dots> \<longleftrightarrow> (\<exists>before after. json_body r = before @ p # after \<and> ?P p
                         \<and> (\<forall>q\<in>set before. \<not> ?P q))"
    by (rule find_Some_first)
  finally have first: "findPage (Inr r) sel = Inr p \<longleftrightarrow>
      (\<exists>before after. json_body r = before @ p # after \<and> ?P p \<and> (\<forall>q\<in>set before. \<not> ?P q))" .
  have none: "findPage (Inr r) sel = Inl (Error (''Page not found: '' @ sel))"
    if "\<forall>q\<in>set (json_body r). \<not> ?P q"
  proof -
    from that have "find ?P (json_body r) = None" by (simp add: find_None_iff)
    then show ?thesis by (simp add: code)
  qed
  have closed: "findPage_then_connect net (Inr r) sel sockets
                  = (Inl (Error (''Page not found: '' @ sel)), sockets)"
    if "\<forall>q\<in>set (json_body r). \<not> ?P q"
    using none [OF that] by (simp add: findPage_then_connect_def)
  from first none closed show ?thesis
    unfolding includes_iff_append by blast
qed

theorem findPage_first_matching_page_witness:
  "ok \<lparr>ok = True, statusText = ''OK'', json_body =
        [\<lparr>page_id = ''worker1'', title = ''Hub Worker'', page_url = '''',
           page_type = ''service_worker'', webSocketDebuggerUrl = ''ws://w1'',
           devtoolsFrontendUrl = None, description = None\<rparr>,
         \<lparr>page_id = ''page2'', title = ''GitHub'', page_url = ''https://github.com'',
           page_type = ''page'', webSocketDebuggerUrl = ''ws://p2'',
           devtoolsFrontendUrl = None, description = None\<rparr>,
         \<lparr>page_id = ''Hub'', title = ''Hubble'', page_url = ''https://hubble'',
           page_type = ''page'', webSocketDebuggerUrl = ''ws://p3'',
           devtoolsFrontendUrl = None, description = None\<rparr>]\<rparr>
   \<and> findPage (Inr \<lparr>ok = True, statusText = ''OK'', json_body =
        [\<lparr>page_id = ''worker1'', title = ''Hub Worker'', page_url = '''',
           page_type = ''service_worker'', webSocketDebuggerUrl = ''ws://w1'',
           devtoolsFrontendUrl = None, description = None\<rparr>,
         \<lparr>page_id = ''page2'', title = ''GitHub'', page_url = ''https://github.com'',
           page_type = ''page'', webSocketDebuggerUrl = ''ws://p2'',
           devtoolsFrontendUrl = None, description = None\<rparr>,
         \<lparr>page_id = ''Hub'', title = ''Hubble'', page_url = ''https://hubble'',
           page_type = ''page'', webSocketDebuggerUrl = ''ws://p3'',
           devtoolsFrontendUrl = None, description = None\<rparr>]\<rparr>) ''Hub''
       = Inr \<lparr>page_id = ''page2'', title = ''GitHub'', page_url = ''https://github.com'',
           page_type = ''page'', webSocketDebuggerUrl = ''ws://p2'',
           devtoolsFrontendUrl = None, description = None\<rparr>
   \<and> findPage_then_connect (\<lambda>u. None) (Inr \<lparr>ok = True, statusText = ''OK'', json_body =
        [\<lparr>page_id = ''worker1'', title = ''Hub Worker'', page_url = '''',
           page_type = ''service_worker'', webSocketDebuggerUrl = ''ws://w1'',
           devtoolsFrontendUrl = None, description = None\<rparr>]\<rparr>) ''Hub'' []
       = (Inl (Error ''Page not found: Hub''), [])"
proof -
  let ?w = "\<lparr>page_id = ''worker1'', title = ''Hub Worker'', page_url = '''',
           page_type = ''service_worker'', webSocketDebuggerUrl = ''ws://w1'',
           devtoolsFrontendUrl = None, description = None\<rparr>"
  let ?p2 = "\<lparr>page_id = ''page2'', title = ''GitHub'', page_url = ''https://github.com'',
           page_type = ''page'', webSocketDebuggerUrl = ''ws://p2'',
           devtoolsFrontendUrl = None, description = None\<rparr>"
  let ?p3 = "\<lparr>page_id = ''Hub'', title = ''Hubble'', page_url = ''https://hubble'',
           page_type = ''page'', webSocketDebuggerUrl = ''ws://p3'',
           devtoolsFrontendUrl = None, description = None\<rparr>"
  let ?r = "\<lparr>ok = True, statusText = ''OK'', json_body = [?w, ?p2, ?p3]\<rparr>"
  let ?r1 = "\<lparr>ok = True, statusText = ''OK'', json_body = [?w]\<rparr>"
  have ok: "ok ?r" and ok1: "ok ?r1" by simp_all
  have sub: "\<exists>l r. title ?p2 = l @ ''Hub'' @ r"
    unfolding includes_iff_append [symmetric] by simp
  have "json_body ?r = [?w] @ ?p2 # [?p3] \<and> page_type ?p2 = ''page''
        \<and> (page_id ?p2 = ''Hub'' \<or> (\<exists>l r. title ?p2 = l @ ''Hub'' @ r))
        \<and> (\<forall>q\<in>set [?w]. \<not> (page_type q = ''page''
               \<and> (page_id q = ''Hub'' \<or> (\<exists>l r. title q = l @ ''Hub'' @ r))))"
    using sub by simp
  then have found: "findPage (Inr ?r) ''Hub'' = Inr ?p2"
    using findPage_first_matching_page [OF ok, of "''Hub''" ?p2] by blast
  have "\<forall>q\<in>set (json_body ?r1). \<not> (page_type q = ''page''
               \<and> (page_id q = ''Hub'' \<or> (\<exists>l r. title q = l @ ''Hub'' @ r)))"
    by simp
  then have "findPage_then_connect (\<lambda>u. None) (Inr ?r1) ''Hub'' []
               = (Inl (Error (''Page not found: '' @ ''Hub'')), [])"
    using findPage_first_matching_page [OF ok1, of "''Hub''" ?p2 "\<lambda>u. None" "[]"] by blast
  with ok found show ?thesis by simp
qed

subsection \<open>The network listener\<close>

lemma map_of_map_set: "map_of (map_set k v m) k' = (if k' = k then Some v else map_of m k')"
  by (induction m) auto

lemma map_set_twice: "map_set k v (map_set k v m) = map_set k v m"
  by (induction m) auto

lemma keys_map_set: "fst ` set (map_set k v m) = insert k (fst ` set m)"
  by (induction k v m rule: map_set.induct) auto

lemma distinct_map_set: "distinct (map fst m) \<Longrightarrow> distinct (map fst (map_set k v m))"
  by (induction k v m rule: map_set.induct) (auto simp: keys_map_set)

lemma listener_start:
  "network_listener e (start k rq ts ty) (requests, this) =
     (case map_of requests k of
        Some existing \<Rightarrow>
          ((requests,
            update_object existing
              (\<lambda>r. r\<lparr>nr_url := rq_url rq, nr_method := rq_method rq,
                      nr_timestamp := ts * 1000, nr_type := ty,
                      requestHeaders := Some (rq_headers rq)\<rparr>) this), None)
      | None \<Rightarrow>
          ((map_set k (length (heap this)) requests,
            this\<lparr>heap := heap this @
              [\<lparr>nr_id = k, nr_url = rq_url rq, nr_method = rq_method rq, nr_status = None,
                nr_type = ty, nr_size = None, nr_timestamp = ts * 1000,
                requestHeaders = Some (rq_headers rq), responseHeaders = None\<rparr>]\<rparr>), None))"
  by (simp add: network_listener_def start_def notification_def and_then_def
        on_requestWillBeSent_def on_responseReceived_def on_loadingFinished_def
      split: option.splits)

lemma listener_response:
  "network_listener e (response_received k rs) (requests, this) =
     (let (req, requests', this') =
            (case map_of requests k of
               Some req \<Rightarrow> (req, requests, this)
             | None \<Rightarrow>
                 (length (heap this), map_set k (length (heap this)) requests,
                  this\<lparr>heap := heap this @
                    [\<lparr>nr_id = k, nr_url = (case rs_url rs of None \<Rightarrow> [] | Some u \<Rightarrow> u),
                      nr_method = ''GET'', nr_status = None, nr_type = None,
                      nr_size = None, nr_timestamp = of_nat (now_ts e),
                      requestHeaders = None, responseHeaders = None\<rparr>]\<rparr>));
          this'' = update_object req
              (\<lambda>r. r\<lparr>nr_status := Some (rs_status rs),
                      responseHeaders := Some (rs_headers rs),
                      nr_size := (case rs_encodedDataLength rs of
                                    None \<Rightarrow> nr_size r | Some n \<Rightarrow> Some n)\<rparr>) this'
      in ((requests', this''\<lparr>networkRequests := map_set k req (networkRequests this'')\<rparr>),
          None))"
  by (simp add: network_listener_def response_received_def notification_def and_then_def
        on_requestWillBeSent_def on_responseReceived_def on_loadingFinished_def Let_def
      split: option.splits)

lemma listener_finish:
  "network_listener e (finish k sz) (requests, this) =
     (case map_of (networkRequests this) k of
        None \<Rightarrow> ((requests, this), None)
      | Some req \<Rightarrow> ((requests, update_object req (\<lambda>r. r\<lparr>nr_size := sz\<rparr>) this), None))"
  by (simp add: network_listener_def finish_def notification_def and_then_def
        on_requestWillBeSent_def on_responseReceived_def on_loadingFinished_def
      split: option.splits)

lemma update_object_comp:
  "update_object a f (update_object a g this) = update_object a (\<lambda>r. f (g r)) this"
  by (cases "a < length (heap this)") (simp_all add: update_object_def list_update_beyond)

lemma update_object_cong:
  "(\<And>r. f r = g r) \<Longrightarrow> update_object a f this = update_object a g this"
  by (simp add: update_object_def)


lemma update_object_fresh:
  "update_object (length (heap this)) f (this\<lparr>heap := heap this @ [x]\<rparr>)
     = this\<lparr>heap := heap this @ [f x]\<rparr>"
  by (simp add: update_object_def)

lemma update_object_networkRequests:
  "update_object a f (this\<lparr>networkRequests := n\<rparr>)
     = (update_object a f this)\<lparr>networkRequests := n\<rparr>"
  by (simp add: update_object_def)

lemma networkRequests_update_object [simp]:
  "networkRequests (update_object a f this) = networkRequests this"
  by (simp add: update_object_def)

lemma convergence_state:
  "feed network_listener st
       [(e1, response_received k rs), (e2, start k rq ts ty), (e3, finish k sz)]
   = feed network_listener st
       [(e4, start k rq ts ty), (e5, response_received k rs), (e6, finish k sz)]"
proof (cases st)
  case (Pair requests this)
  show ?thesis
  proof (cases "map_of requests k")
    case None
    then show ?thesis
      by (simp add: Pair listener_start listener_response listener_finish Let_def
            map_of_map_set update_object_fresh update_object_comp
            update_object_networkRequests
          split: option.splits)
  next
    case (Some a)
    have "update_object a
      (\<lambda>r. r\<lparr>nr_status := Some (rs_status rs),
               responseHeaders := Some (rs_headers rs), nr_url := rq_url rq,
               nr_method := rq_method rq, nr_timestamp := ts * 1000,
               nr_type := ty, requestHeaders := Some (rq_headers rq),
               nr_size := sz\<rparr>) this = update_object a
      (\<lambda>r. r\<lparr>nr_url := rq_url rq, nr_method := rq_method rq,
               nr_timestamp := ts * 1000, nr_type := ty,
               requestHeaders := Some (rq_headers rq),
               nr_status := Some (rs_status rs),
               responseHeaders := Some (rs_headers rs), nr_size := sz\<rparr>) this"
      by (rule update_object_cong) (case_tac r, simp)
    with Some show ?thesis
      by (simp add: Pair listener_start listener_response listener_finish Let_def
            map_of_map_set update_object_comp update_object_networkRequests
          split: option.splits)
  qed
qed


lemma and_then_preserves:
  assumes "\<And>s. P s \<Longrightarrow> P (fst (f s))" and "\<And>s. P s \<Longrightarrow> P (fst (g s))" and "P s"
  shows "P (fst (and_then f g s))"
proof (cases "f s")
  case (Pair s' x)
  from assms(1) [OF assms(3)] Pair have "P s'" by simp
  with assms(2) Pair show ?thesis
    by (cases x) (simp_all add: and_then_def)
qed

lemma ok_update:
  assumes "collector_ok (requests, this)" and "\<And>r. nr_id (f r) = nr_id r"
  shows "collector_ok (requests, update_object a f this)"
proof -
  have "nr_id ((heap this)[a := f (heap this ! a)] ! b) = nr_id (heap this ! b)"
    if "b < length (heap this)" for b
    using that assms(2) by (cases "a = b") simp_all
  with assms(1) show ?thesis
    by (simp add: collector_ok_def update_object_def)
qed

lemma ok_alloc:
  assumes "collector_ok (requests, this)" and "map_of requests k = None" and "nr_id x = k"
  shows "collector_ok (map_set k (length (heap this)) requests,
                       this\<lparr>heap := heap this @ [x]\<rparr>)"
proof -
  from assms(1) have
    r: "\<And>k a. map_of requests k = Some a \<Longrightarrow> a < length (heap this) \<and> nr_id (heap this ! a) = k"
    and n: "\<And>k a. map_of (networkRequests this) k = Some a \<Longrightarrow> map_of requests k = Some a"
    and d: "distinct (map fst (networkRequests this))"
    by (simp_all add: collector_ok_def)
  have "a < length (heap this @ [x]) \<and> nr_id ((heap this @ [x]) ! a) = k'"
    if "map_of (map_set k (length (heap this)) requests) k' = Some a" for k' a
  proof (cases "k' = k")
    case True
    with that have "a = length (heap this)" by (simp add: map_of_map_set)
    with True assms(3) show ?thesis by simp
  next
    case False
    with that have "map_of requests k' = Some a" by (simp add: map_of_map_set)
    from r [OF this] show ?thesis by (simp add: nth_append)
  qed
  moreover have "map_of (map_set k (length (heap this)) requests) k' = Some a"
    if "map_of (networkRequests this) k' = Some a" for k' a
  proof -
    from n [OF that] have m: "map_of requests k' = Some a" .
    with assms(2) have "k' \<noteq> k" by auto
    with m show ?thesis by (simp add: map_of_map_set)
  qed
  ultimately show ?thesis using d by (simp add: collector_ok_def)
qed

lemma ok_publish:
  assumes "collector_ok (requests, this)" and "map_of requests k = Some a"
  shows "collector_ok (requests, this\<lparr>networkRequests := map_set k a (networkRequests this)\<rparr>)"
  using assms by (simp add: collector_ok_def map_of_map_set distinct_map_set)

lemma ok_requestWillBeSent:
  assumes "collector_ok st"
  shows "collector_ok (fst (on_requestWillBeSent m st))"
proof (cases st)
  case (Pair requests this)
  with assms have ok: "collector_ok (requests, this)" by simp
  show ?thesis
  proof (cases "msg_method m = Some ''Network.requestWillBeSent''")
    case False
    with ok show ?thesis by (simp add: Pair on_requestWillBeSent_def)
  next
    case True
    show ?thesis
    proof (cases "params m")
      case None
      with ok True show ?thesis by (simp add: Pair on_requestWillBeSent_def)
    next
      case (Some ps)
      show ?thesis
      proof (cases ps)
        case (RequestWillBeSent k rq ts ty)
        show ?thesis
        proof (cases "map_of requests k")
          case None
          from ok_alloc [OF ok None] None True Some RequestWillBeSent show ?thesis
            by (simp add: Pair on_requestWillBeSent_def)
        next
          case (Some a)
          from ok_update [OF ok] Some True \<open>params m = Some ps\<close> RequestWillBeSent
          show ?thesis
            by (simp add: Pair on_requestWillBeSent_def)
        qed
      qed (use ok True Some in \<open>simp_all add: Pair on_requestWillBeSent_def\<close>)
    qed
  qed
qed

lemma ok_responseReceived:
  assumes "collector_ok st"
  shows "collector_ok (fst (on_responseReceived e m st))"
proof (cases st)
  case (Pair requests this)
  with assms have ok: "collector_ok (requests, this)" by simp
  show ?thesis
  proof (cases "msg_method m = Some ''Network.responseReceived''")
    case False
    with ok show ?thesis by (simp add: Pair on_responseReceived_def)
  next
    case True
    show ?thesis
    proof (cases "params m")
      case None
      with ok True show ?thesis by (simp add: Pair on_responseReceived_def)
    next
      case (Some ps)
      show ?thesis
      proof (cases ps)
        case (ResponseReceived k rs)
        let ?f = "\<lambda>r. r\<lparr>nr_status := Some (rs_status rs),
                         responseHeaders := Some (rs_headers rs),
                         nr_size := (case rs_encodedDataLength rs of
                                       None \<Rightarrow> nr_size r | Some n \<Rightarrow> Some n)\<rparr>"
        show ?thesis
        proof (cases "map_of requests k")
          case None
          let ?x = "\<lparr>nr_id = k, nr_url = (case rs_url rs of None \<Rightarrow> [] | Some u \<Rightarrow> u),
                     nr_method = ''GET'', nr_status = None, nr_type = None,
                     nr_size = None, nr_timestamp = of_nat (now_ts e),
                     requestHeaders = None, responseHeaders = None\<rparr>"
          let ?requests = "map_set k (length (heap this)) requests"
          have "collector_ok (?requests, this\<lparr>heap := heap this @ [?x]\<rparr>)"
            by (rule ok_alloc [OF ok None]) simp
          then have "collector_ok (?requests,
                       update_object (length (heap this)) ?f (this\<lparr>heap := heap this @ [?x]\<rparr>))"
            by (rule ok_update) simp
          moreover have "map_of ?requests k = Some (length (heap this))"
            by (simp add: map_of_map_set)
          ultimately have "collector_ok (?requests,
              (update_object (length (heap this)) ?f (this\<lparr>heap := heap this @ [?x]\<rparr>))
                \<lparr>networkRequests := map_set k (length (heap this)) (networkRequests
                   (update_object (length (heap this)) ?f (this\<lparr>heap := heap this @ [?x]\<rparr>)))\<rparr>)"
            by (rule ok_publish)
          with None True Some ResponseReceived show ?thesis
            by (simp add: Pair on_responseReceived_def Let_def)
        next
          case (Some a)
          have "collector_ok (requests, update_object a ?f this)"
            by (rule ok_update [OF ok]) simp
          from ok_publish [OF this Some] Some True \<open>params m = Some ps\<close> ResponseReceived
          show ?thesis
            by (simp add: Pair on_responseReceived_def Let_def)
        qed
      qed (use ok True Some in \<open>simp_all add: Pair on_responseReceived_def\<close>)
    qed
  qed
qed

lemma ok_loadingFinished:
  assumes "collector_ok st"
  shows "collector_ok (fst (on_loadingFinished m st))"
proof (cases st)
  case (Pair requests this)
  with assms have ok: "collector_ok (requests, this)" by simp
  have "collector_ok (requests, update_object a (\<lambda>r. r\<lparr>nr_size := z\<rparr>) this)" for a z
    by (rule ok_update [OF ok]) simp
  with ok show ?thesis
    by (simp add: Pair on_loadingFinished_def split: option.splits)
qed

lemma ok_network_listener:
  "collector_ok st \<Longrightarrow> collector_ok (fst (network_listener e p st))"
  unfolding network_listener_def
  by (cases p)
     (auto intro!: and_then_preserves ok_requestWillBeSent ok_responseReceived ok_loadingFinished)

lemma ok_new: "collector_ok ([], new_context)"
  by (simp add: collector_ok_def new_context_def)

lemma feed_Cons_fst:
  "fst (feed l st ((e, p) # fs)) = fst (feed l (fst (l e p st)) fs)"
  by (simp split: prod.splits)

lemma feed_preserves:
  assumes "\<And>e p s. P s \<Longrightarrow> P (fst (l e p s))"
  shows "P st \<Longrightarrow> P (fst (feed l st fs))"
proof (induction fs arbitrary: st)
  case Nil
  then show ?case by simp
next
  case (Cons f fs)
  obtain e p where f: "f = (e, p)" by (cases f)
  from Cons.prems have "P (fst (l e p st))" by (rule assms)
  then have "P (fst (feed l (fst (l e p st)) fs))" by (rule Cons.IH)
  then show ?case by (simp add: f feed_Cons_fst del: feed.simps)
qed

lemma ok_feed: "collector_ok st \<Longrightarrow> collector_ok (fst (feed network_listener st fs))"
  by (rule feed_preserves [where P = collector_ok]) (rule ok_network_listener)

lemma ok_reachable: "collector_ok (fst (feed network_listener ([], new_context) fs))"
  by (rule ok_feed [OF ok_new])

lemma snapshot_ids:
  assumes "collector_ok (requests, this)"
  shows "map nr_id (getNetworkRequests this) = map fst (networkRequests this)"
proof -
  have "nr_id (heap this ! a) = k" if "(k, a) \<in> set (networkRequests this)" for k a
  proof -
    from assms have "distinct (map fst (networkRequests this))" by (simp add: collector_ok_def)
    with that have "map_of (networkRequests this) k = Some a" by simp
    with assms show ?thesis by (simp add: collector_ok_def)
  qed
  then show ?thesis by (auto simp: getNetworkRequests_def)
qed


lemma start_twice:
  "network_listener e2 (start k rq ts ty) (fst (network_listener e1 (start k rq ts ty) st))
     = (fst (network_listener e1 (start k rq ts ty) st), None)"
proof (cases st)
  case (Pair requests this)
  show ?thesis
  proof (cases "map_of requests k")
    case None
    then show ?thesis
      by (simp add: Pair listener_start map_of_map_set update_object_fresh)
  next
    case (Some a)
    then show ?thesis
      by (simp add: Pair listener_start update_object_comp)
  qed
qed

lemma response_twice:
  "network_listener e2 (response_received k rs)
       (fst (network_listener e1 (response_received k rs) st))
     = (fst (network_listener e1 (response_received k rs) st), None)"
proof (cases st)
  case (Pair requests this)
  let ?f = "\<lambda>r. r\<lparr>nr_status := Some (rs_status rs),
                   responseHeaders := Some (rs_headers rs),
                   nr_size := (case rs_encodedDataLength rs of
                                 None \<Rightarrow> nr_size r | Some n \<Rightarrow> Some n)\<rparr>"
  have "update_object a (\<lambda>r. ?f (?f r)) c = update_object a ?f c" for a c
    by (rule update_object_cong) (simp split: option.splits)
  then have ff: "update_object a ?f (update_object a ?f c) = update_object a ?f c" for a c
    by (simp only: update_object_comp)
  show ?thesis
  proof (cases "map_of requests k")
    case None
    then show ?thesis
      by (simp add: Pair listener_response Let_def map_of_map_set
            update_object_networkRequests map_set_twice ff)
  next
    case (Some a)
    then show ?thesis
      by (simp add: Pair listener_response Let_def
            update_object_networkRequests map_set_twice ff)
  qed
qed

lemma finish_twice:
  "network_listener e2 (finish k sz) (fst (network_listener e1 (finish k sz) st))
     = (fst (network_listener e1 (finish k sz) st), None)"
proof (cases st)
  case (Pair requests this)
  show ?thesis
    by (cases "map_of (networkRequests this) k")
       (simp_all add: Pair listener_finish update_object_comp)
qed

lemma snapshot_update:
  assumes ok: "collector_ok (requests, this)"
    and k: "map_of (networkRequests this) k = Some a"
  shows "getNetworkRequests (update_object a f this)
           = map (\<lambda>r. if nr_id r = k then f r else r) (getNetworkRequests this)"
proof -
  from ok have
    r: "\<And>k a. map_of requests k = Some a \<Longrightarrow> a < length (heap this) \<and> nr_id (heap this ! a) = k"
    and n: "\<And>k a. map_of (networkRequests this) k = Some a \<Longrightarrow> map_of requests k = Some a"
    and d: "distinct (map fst (networkRequests this))"
    by (simp_all add: collector_ok_def)
  have "(heap this)[a := f (heap this ! a)] ! b
          = (if nr_id (heap this ! b) = k then f (heap this ! b) else heap this ! b)"
    if "(k', b) \<in> set (networkRequests this)" for k' b
  proof -
    from that d have "map_of (networkRequests this) k' = Some b" by simp
    from r [OF n [OF this]] have b: "b < length (heap this)" "nr_id (heap this ! b) = k'" by simp_all
    from r [OF n [OF k]] have a: "a < length (heap this)" "nr_id (heap this ! a) = k" by simp_all
    show ?thesis
    proof (cases "a = b")
      case True
      with a b show ?thesis by simp
    next
      case False
      have "k' \<noteq> k"
      proof
        assume "k' = k"
        with \<open>map_of (networkRequests this) k' = Some b\<close> k have "a = b" by simp
        with False show False by simp
      qed
      with False b show ?thesis by simp
    qed
  qed
  then show ?thesis
    by (auto simp: getNetworkRequests_def update_object_def)
qed

lemma snapshot_no_key:
  assumes ok: "collector_ok (requests, this)"
    and k: "map_of (networkRequests this) k = None"
  shows "map (\<lambda>r. if nr_id r = k then f r else r) (getNetworkRequests this)
           = getNetworkRequests this"
proof -
  have "k \<notin> set (map nr_id (getNetworkRequests this))"
    using k by (simp add: snapshot_ids [OF ok] map_of_eq_None_iff)
  then show ?thesis by (intro map_idI) auto
qed

lemma keys_requestWillBeSent:
  "networkRequests (snd (fst (on_requestWillBeSent m st))) = networkRequests (snd st)"
  by (cases st)
     (simp add: on_requestWillBeSent_def split: option.splits params.splits)

lemma keys_loadingFinished:
  "networkRequests (snd (fst (on_loadingFinished m st))) = networkRequests (snd st)"
  by (cases st)
     (simp add: on_loadingFinished_def split: option.splits params.splits)

lemma keys_responseReceived:
  "fst ` set (networkRequests (snd st))
     \<subseteq> fst ` set (networkRequests (snd (fst (on_responseReceived e m st))))"
  by (cases st)
     (auto simp: on_responseReceived_def Let_def keys_map_set
       split: option.splits params.splits)

lemma keys_network_listener:
  "K \<subseteq> fst ` set (networkRequests (snd st))
     \<Longrightarrow> K \<subseteq> fst ` set (networkRequests (snd (fst (network_listener e p st))))"
proof (cases p)
  case (Message m)
  assume K: "K \<subseteq> fst ` set (networkRequests (snd st))"
  have "K \<subseteq> fst ` set (networkRequests (snd (fst
          (and_then (on_requestWillBeSent m)
             (and_then (on_responseReceived e m) (on_loadingFinished m)) st))))"
  proof (rule and_then_preserves [where P = "\<lambda>s::collector. K \<subseteq> fst ` set (networkRequests (snd s))"])
    show "K \<subseteq> fst ` set (networkRequests (snd st))" by (rule K)
  next
    fix s :: collector assume "K \<subseteq> fst ` set (networkRequests (snd s))"
    then show "K \<subseteq> fst ` set (networkRequests (snd (fst (on_requestWillBeSent m s))))"
      by (simp add: keys_requestWillBeSent)
  next
    fix s :: collector assume k: "K \<subseteq> fst ` set (networkRequests (snd s))"
    show "K \<subseteq> fst ` set (networkRequests (snd (fst
            (and_then (on_responseReceived e m) (on_loadingFinished m) s))))"
    proof (rule and_then_preserves [where P = "\<lambda>s::collector. K \<subseteq> fst ` set (networkRequests (snd s))"])
      show "K \<subseteq> fst ` set (networkRequests (snd s))" by (rule k)
    next
      fix s :: collector assume "K \<subseteq> fst ` set (networkRequests (snd s))"
      then show "K \<subseteq> fst ` set (networkRequests (snd (fst (on_responseReceived e m s))))"
        using keys_responseReceived [of s e m] by blast
    next
      fix s :: collector assume "K \<subseteq> fst ` set (networkRequests (snd s))"
      then show "K \<subseteq> fst ` set (networkRequests (snd (fst (on_loadingFinished m s))))"
        by (simp add: keys_loadingFinished)
    qed
  qed
  then show ?thesis by (simp add: network_listener_def Message)
qed (simp_all add: network_listener_def)

lemma keys_feed:
  "K \<subseteq> fst ` set (networkRequests (snd st))
     \<Longrightarrow> K \<subseteq> fst ` set (networkRequests (snd (fst (feed network_listener st fs))))"
  by (rule feed_preserves [where P = "\<lambda>s::collector. K \<subseteq> fst ` set (networkRequests (snd s))"])
     (rule keys_network_listener)

lemma key_after_response:
  "k \<in> fst ` set (networkRequests (snd (fst (network_listener e (response_received k rs) st))))"
  by (cases st) (simp add: listener_response Let_def keys_map_set split: option.splits)

lemma snapshot_ids':
  "collector_ok st \<Longrightarrow> map nr_id (getNetworkRequests (snd st)) = map fst (networkRequests (snd st))"
  by (cases st) (simp add: snapshot_ids)

lemma keys_after_start:
  "networkRequests (snd (fst (network_listener e (start k rq ts ty) st))) = networkRequests (snd st)"
  by (cases st) (simp add: listener_start split: option.splits)

lemma keys_after_finish:
  "networkRequests (snd (fst (network_listener e (finish k sz) st))) = networkRequests (snd st)"
  by (cases st) (simp add: listener_finish split: option.splits)

lemma known_after_start:
  "collector_ok st \<Longrightarrow>
     map_option nr_id (known_request (fst (network_listener e (start k rq ts ty) st)) k) = Some k"
proof -
  assume "collector_ok st"
  then have ok: "collector_ok (fst (network_listener e (start k rq ts ty) st))"
    by (rule ok_network_listener)
  obtain requests this where st': "fst (network_listener e (start k rq ts ty) st) = (requests, this)"
    by (cases "fst (network_listener e (start k rq ts ty) st)")
  have "map_of requests k \<noteq> None"
    using st' by (cases st) (auto simp: listener_start map_of_map_set split: option.splits)
  then obtain a where a: "map_of requests k = Some a" by blast
  with ok st' have "nr_id (heap this ! a) = k" by (simp add: collector_ok_def)
  with a show ?thesis by (simp add: st' known_request_def)
qed

text \<open>
  C6 (amended). An entity for key \<open>k\<close> is created by whichever of the start and the
  response notification arrives first, but a start notification only puts it into the
  listener's local map: it is in the snapshot that \<^verbatim>\<open>getNetworkRequests\<close> returns once a
  response notification for \<open>k\<close> has been processed, and it stays there whatever
  arrives later. A start or a finish notification adds no entity to the snapshot; after
  a start notification the entity is known to the listener all the same.
\<close>

theorem entity_retrievable_from_first_response:
  fixes before later :: "(env \<times> payload) list"
  defines "st \<equiv> fst (feed network_listener ([], new_context) before)"
  shows "(\<exists>r\<in>set (getNetworkRequests (snd (fst (feed network_listener
                 (fst (network_listener e (response_received k rs) st)) later)))). nr_id r = k)
       \<and> map nr_id (getNetworkRequests (snd (fst (network_listener e (start k rq ts ty) st))))
           = map nr_id (getNetworkRequests (snd st))
       \<and> map nr_id (getNetworkRequests (snd (fst (network_listener e (finish k sz) st))))
           = map nr_id (getNetworkRequests (snd st))
       \<and> map_option nr_id (known_request (fst (network_listener e (start k rq ts ty) st)) k)
           = Some k"
proof -
  have ok: "collector_ok st" unfolding st_def by (rule ok_reachable)
  let ?st1 = "fst (network_listener e (response_received k rs) st)"
  let ?st2 = "fst (feed network_listener ?st1 later)"
  have "{k} \<subseteq> fst ` set (networkRequests (snd ?st1))"
    using key_after_response [of k e rs st] by simp
  then have "{k} \<subseteq> fst ` set (networkRequests (snd ?st2))" by (rule keys_feed)
  moreover have "collector_ok ?st2"
    by (intro ok_feed ok_network_listener ok)
  ultimately have "k \<in> set (map nr_id (getNetworkRequests (snd ?st2)))"
    by (simp add: snapshot_ids')
  then have 1: "\<exists>r\<in>set (getNetworkRequests (snd ?st2)). nr_id r = k" by auto
  have 2: "map nr_id (getNetworkRequests (snd (fst (network_listener e (start k rq ts ty) st))))
           = map nr_id (getNetworkRequests (snd st))"
    by (simp add: snapshot_ids' ok ok_network_listener keys_after_start)
  have 3: "map nr_id (getNetworkRequests (snd (fst (network_listener e (finish k sz) st))))
           = map nr_id (getNetworkRequests (snd st))"
    by (simp add: snapshot_ids' ok ok_network_listener keys_after_finish)
  from 1 2 3 known_after_start [OF ok] show ?thesis by blast
qed



lemma ok_facts:
  assumes "collector_ok (requests, this)"
  shows "map_of requests k = Some a \<Longrightarrow> a < length (heap this)"
    and "map_of requests k = Some a \<Longrightarrow> nr_id (heap this ! a) = k"
    and "map_of (networkRequests this) k = Some a \<Longrightarrow> map_of requests k = Some a"
    and "map_of requests k = Some a \<Longrightarrow> map_of requests k' = Some a \<Longrightarrow> k' = k"
proof -
  from assms have
    r: "\<And>k a. map_of requests k = Some a \<Longrightarrow> a < length (heap this) \<and> nr_id (heap this ! a) = k"
    and n: "\<And>k a. map_of (networkRequests this) k = Some a \<Longrightarrow> map_of requests k = Some a"
    by (simp_all add: collector_ok_def)
  show "map_of requests k = Some a \<Longrightarrow> a < length (heap this)" using r by blast
  show "map_of requests k = Some a \<Longrightarrow> nr_id (heap this ! a) = k" using r by blast
  show "map_of (networkRequests this) k = Some a \<Longrightarrow> map_of requests k = Some a" by (rule n)
  show "map_of requests k = Some a \<Longrightarrow> map_of requests k' = Some a \<Longrightarrow> k' = k"
    using r [of k a] r [of k' a] by simp
qed

lemma heap_update_object:
  "a < length (heap this) \<Longrightarrow>
     heap (update_object b f this) ! a = (if a = b then f (heap this ! a) else heap this ! a)"
  by (simp add: update_object_def)

lemma known_start:
  assumes ok: "collector_ok st" and r: "known_request st k = Some r"
  shows "known_request (fst (network_listener e (start k' rq ts ty) st)) k
           = Some (if k' = k
                   then r\<lparr>nr_url := rq_url rq, nr_method := rq_method rq,
                           nr_timestamp := ts * 1000, nr_type := ty,
                           requestHeaders := Some (rq_headers rq)\<rparr>
                   else r)"
proof (cases st)
  case (Pair requests this)
  from r obtain a where a: "map_of requests k = Some a" and ra: "r = heap this ! a"
    by (auto simp: known_request_def Pair)
  from ok have ok': "collector_ok (requests, this)" by (simp add: Pair)
  note f = ok_facts [OF ok']
  from f(1) [OF a] have len: "a < length (heap this)" .
  show ?thesis
  proof (cases "map_of requests k'")
    case None
    with a have "k' \<noteq> k" by auto
    with None a len ra show ?thesis
      by (simp add: Pair listener_start known_request_def map_of_map_set nth_append)
  next
    case (Some b)
    have "k' = k" if "a = b" using f(4) [OF a] Some that by simp
    with Some a len ra show ?thesis
      by (auto simp: Pair listener_start known_request_def heap_update_object)
  qed
qed

lemma known_response:
  assumes ok: "collector_ok st" and r: "known_request st k = Some r"
  shows "known_request (fst (network_listener e (response_received k' rs) st)) k
           = Some (if k' = k
                   then r\<lparr>nr_status := Some (rs_status rs),
                           responseHeaders := Some (rs_headers rs),
                           nr_size := (case rs_encodedDataLength rs of
                                         None \<Rightarrow> nr_size r | Some n \<Rightarrow> Some n)\<rparr>
                   else r)"
proof (cases st)
  case (Pair requests this)
  from r obtain a where a: "map_of requests k = Some a" and ra: "r = heap this ! a"
    by (auto simp: known_request_def Pair)
  from ok have ok': "collector_ok (requests, this)" by (simp add: Pair)
  note f = ok_facts [OF ok']
  from f(1) [OF a] have len: "a < length (heap this)" .
  show ?thesis
  proof (cases "map_of requests k'")
    case None
    with a have "k' \<noteq> k" by auto
    with None a len ra show ?thesis
      by (simp add: Pair listener_response known_request_def map_of_map_set nth_append
            update_object_def Let_def)
  next
    case (Some b)
    have "k' = k" if "a = b" using f(4) [OF a] Some that by simp
    with Some a len ra show ?thesis
      by (auto simp: Pair listener_response known_request_def heap_update_object Let_def)
  qed
qed

lemma known_finish:
  assumes ok: "collector_ok st" and r: "known_request st k = Some r"
  shows "known_request (fst (network_listener e (finish k' sz) st)) k
           = Some (if k' = k \<and> map_of (networkRequests (snd st)) k \<noteq> None
                   then r\<lparr>nr_size := sz\<rparr> else r)"
proof (cases st)
  case (Pair requests this)
  from r obtain a where a: "map_of requests k = Some a" and ra: "r = heap this ! a"
    by (auto simp: known_request_def Pair)
  from ok have ok': "collector_ok (requests, this)" by (simp add: Pair)
  note f = ok_facts [OF ok']
  from f(1) [OF a] have len: "a < length (heap this)" .
  show ?thesis
  proof (cases "map_of (networkRequests this) k'")
    case None
    with a ra show ?thesis
      by (auto simp: Pair listener_finish known_request_def)
  next
    case (Some b)
    from f(3) [OF Some] have b: "map_of requests k' = Some b" .
    have "k' = k" if "a = b" using f(4) [OF a] b that by simp
    moreover have "a = b" if "k' = k" using a b that by simp
    ultimately show ?thesis using Some a len ra
      by (auto simp: Pair listener_finish known_request_def heap_update_object)
  qed
qed

lemma known_id:
  assumes ok: "collector_ok st" and r: "known_request st k = Some r"
  shows "nr_id r = k"
proof (cases st)
  case (Pair requests this)
  from r obtain a where a: "map_of requests k = Some a" and ra: "r = heap this ! a"
    by (auto simp: known_request_def Pair)
  from ok have "collector_ok (requests, this)" by (simp add: Pair)
  from ok_facts(2) [OF this a] ra show ?thesis by simp
qed

lemma feed_two:
  "fst (feed l st [(e1, p1), (e2, p2)]) = fst (l e2 p2 (fst (l e1 p1 st)))"
  by (simp split: prod.splits)

lemma filter_key_le_1:
  "distinct (map f xs) \<Longrightarrow> length (filter (\<lambda>x. f x = k) xs) \<le> Suc 0"
proof (induction xs)
  case Nil
  then show ?case by simp
next
  case (Cons x xs)
  show ?case
  proof (cases "f x = k")
    case True
    have "f y \<noteq> k" if "y \<in> set xs" for y
    proof
      assume "f y = k"
      with that True have "f x \<in> f ` set xs" by (metis imageI)
      with Cons.prems show False by simp
    qed
    then have "filter (\<lambda>x. f x = k) xs = []"
      by (simp add: filter_empty_conv)
    with True show ?thesis by simp
  next
    case False
    with Cons show ?thesis by simp
  qed
qed

text \<open>
  C5. For every correlation key \<open>k\<close> and identical payloads, the notifications
  response(k), start(k), finish(k) in that order leave the listener in the same state,
  and so the entity of \<open>k\<close> with the same url, method, type, headers, status, size and
  timestamp, as the canonical order start(k), response(k), finish(k); no listener
  throws. In a fresh context the entity is the one of the spec's scenario B.
\<close>

theorem network_entity_convergence:
  "feed network_listener st
       [(e1, response_received k rs), (e2, start k rq ts ty), (e3, finish k sz)]
     = feed network_listener st
         [(e4, start k rq ts ty), (e5, response_received k rs), (e6, finish k sz)]
   \<and> snd (feed network_listener st
         [(e4, start k rq ts ty), (e5, response_received k rs), (e6, finish k sz)]) = []
   \<and> getNetworkRequests (snd (fst (feed network_listener ([], new_context)
         [(e1, response_received k rs), (e2, start k rq ts ty), (e3, finish k sz)])))
       = [\<lparr>nr_id = k, nr_url = rq_url rq, nr_method = rq_method rq,
           nr_status = Some (rs_status rs), nr_type = ty, nr_size = sz,
           nr_timestamp = ts * 1000, requestHeaders = Some (rq_headers rq),
           responseHeaders = Some (rs_headers rs)\<rparr>]"
proof -
  have "snd (feed network_listener st
         [(e4, start k rq ts ty), (e5, response_received k rs), (e6, finish k sz)]) = []"
    by (cases st)
       (simp add: listener_start listener_response listener_finish Let_def
          split: option.splits prod.splits)
  moreover have "getNetworkRequests (snd (fst (feed network_listener ([], new_context)
         [(e1, response_received k rs), (e2, start k rq ts ty), (e3, finish k sz)])))
       = [\<lparr>nr_id = k, nr_url = rq_url rq, nr_method = rq_method rq,
           nr_status = Some (rs_status rs), nr_type = ty, nr_size = sz,
           nr_timestamp = ts * 1000, requestHeaders = Some (rq_headers rq),
           responseHeaders = Some (rs_headers rs)\<rparr>]"
    by (simp add: listener_start listener_response listener_finish Let_def new_context_def
          update_object_def getNetworkRequests_def)
  ultimately show ?thesis using convergence_state [of st e1 k rs e2 rq ts ty e3 sz e4 e5 e6]
    by simp
qed

theorem network_entity_convergence_witness:
  "getNetworkRequests (snd (fst (feed network_listener ([], new_context)
      [(\<lparr>now_id = 0, random_suffix = '''', now_ts = 0\<rparr>,
        response_received ''r1''
          \<lparr>rs_url = None, rs_status = 200, rs_headers = [], rs_encodedDataLength = None\<rparr>),
       (\<lparr>now_id = 0, random_suffix = '''', now_ts = 0\<rparr>,
        start ''r1'' \<lparr>rq_url = ''https://x'', rq_method = ''GET'', rq_headers = []\<rparr> 1 None),
       (\<lparr>now_id = 0, random_suffix = '''', now_ts = 0\<rparr>, finish ''r1'' (Some 4567))])))
   = [\<lparr>nr_id = ''r1'', nr_url = ''https://x'', nr_method = ''GET'', nr_status = Some 200,
       nr_type = None, nr_size = Some 4567, nr_timestamp = 1000, requestHeaders = Some [],
       responseHeaders = Some []\<rparr>]"
  using network_entity_convergence
    [of "([], new_context)" "\<lparr>now_id = 0, random_suffix = '''', now_ts = 0\<rparr>" "''r1''"
       "\<lparr>rs_url = None, rs_status = 200, rs_headers = [], rs_encodedDataLength = None\<rparr>"
       "\<lparr>now_id = 0, random_suffix = '''', now_ts = 0\<rparr>"
       "\<lparr>rq_url = ''https://x'', rq_method = ''GET'', rq_headers = []\<rparr>" 1 None
       "\<lparr>now_id = 0, random_suffix = '''', now_ts = 0\<rparr>" "Some 4567"
       "\<lparr>now_id = 0, random_suffix = '''', now_ts = 0\<rparr>"
       "\<lparr>now_id = 0, random_suffix = '''', now_ts = 0\<rparr>"
       "\<lparr>now_id = 0, random_suffix = '''', now_ts = 0\<rparr>",
     THEN conjunct2, THEN conjunct2]
  by simp

text \<open>
  The sentence of the spec that a key observed only through a start notification has an
  entity in the retrieved table fails: after one start notification in a fresh context
  the retrieved table is empty.
\<close>

theorem started_request_not_retrievable:
  "getNetworkRequests (snd (fst (feed network_listener ([], new_context)
      [(\<lparr>now_id = 0, random_suffix = '''', now_ts = 0\<rparr>,
        start ''r1'' \<lparr>rq_url = ''https://x'', rq_method = ''GET'', rq_headers = []\<rparr> 1 None)])))
   = []"
  by (simp add: listener_start new_context_def getNetworkRequests_def)

lemma published_iff:
  "collector_ok st \<Longrightarrow>
     k \<in> nr_id ` set (getNetworkRequests (snd st)) \<longleftrightarrow> map_of (networkRequests (snd st)) k \<noteq> None"
proof -
  assume ok: "collector_ok st"
  have "nr_id ` set (getNetworkRequests (snd st)) = set (map nr_id (getNetworkRequests (snd st)))"
    by simp
  also have "\<dots> = fst ` set (networkRequests (snd st))"
    by (simp only: snapshot_ids' [OF ok] set_map)
  finally show ?thesis by (simp add: map_of_eq_None_iff)
qed

lemma requests_after_finish:
  "fst (fst (network_listener e (finish k sz) st)) = fst st"
  by (cases st) (simp add: listener_finish split: option.splits)

lemma heap_length_after_finish:
  "length (heap (snd (fst (network_listener e (finish k sz) st)))) = length (heap (snd st))"
  by (cases st) (simp add: listener_finish update_object_def split: option.splits)

lemma finish_unpublished:
  "map_of (networkRequests (snd st)) k = None \<Longrightarrow>
     fst (network_listener e (finish k sz) st) = st"
  by (cases st) (simp add: listener_finish)

lemma known_finish_any:
  assumes ok: "collector_ok st"
  shows "known_request (fst (network_listener e (finish k sz) st)) j
           = (if j = k \<and> map_of (networkRequests (snd st)) k \<noteq> None
              then map_option (\<lambda>r. r\<lparr>nr_size := sz\<rparr>) (known_request st j)
              else known_request st j)"
proof (cases "known_request st j")
  case None
  then have "map_of (fst st) j = None"
    by (cases st) (simp add: known_request_def)
  then have "map_of (fst (fst (network_listener e (finish k sz) st))) j = None"
    by (simp only: requests_after_finish)
  then have "known_request (fst (network_listener e (finish k sz) st)) j = None"
    by (cases "fst (network_listener e (finish k sz) st)") (simp add: known_request_def)
  with None show ?thesis by auto
next
  case (Some r)
  from known_finish [OF ok Some, of e k sz] Some show ?thesis by auto
qed

lemma published_in_snapshot:
  assumes ok: "collector_ok st" and k: "map_of (networkRequests (snd st)) k = Some a"
  shows "known_request st k = Some (heap (snd st) ! a)"
    and "heap (snd st) ! a \<in> set (getNetworkRequests (snd st))"
proof -
  obtain requests this where st: "st = (requests, this)" by (cases st)
  from ok have ok': "collector_ok (requests, this)" by (simp add: st)
  from k have k': "map_of (networkRequests this) k = Some a" by (simp add: st)
  from ok_facts(3) [OF ok' k'] show "known_request st k = Some (heap (snd st) ! a)"
    by (simp add: st known_request_def)
  from k' have "(k, a) \<in> set (networkRequests this)" by (rule map_of_SomeD)
  then show "heap (snd st) ! a \<in> set (getNetworkRequests (snd st))"
    by (force simp: st getNetworkRequests_def)
qed

text \<open>
  The claim as the spec states it fails for an entity that a start notification created:
  the finish branch looks the key up in \<^verbatim>\<open>this.networkRequests\<close>, where an entity stands
  only once a response notification has been processed. After start(r1), finish(r1, 500),
  finish(r1, 500) in a fresh context the entity of r1 has no size, and the retrieved
  table is empty.
\<close>

theorem finish_dropped_for_started_entity:
  "known_request (fst (feed network_listener ([], new_context)
      [(\<lparr>now_id = 0, random_suffix = '''', now_ts = 0\<rparr>,
        start ''r1'' \<lparr>rq_url = ''https://x'', rq_method = ''GET'', rq_headers = []\<rparr> 1 None),
       (\<lparr>now_id = 0, random_suffix = '''', now_ts = 0\<rparr>, finish ''r1'' (Some 500)),
       (\<lparr>now_id = 0, random_suffix = '''', now_ts = 0\<rparr>, finish ''r1'' (Some 500))])) ''r1''
   = Some \<lparr>nr_id = ''r1'', nr_url = ''https://x'', nr_method = ''GET'', nr_status = None,
            nr_type = None, nr_size = None, nr_timestamp = 1000,
            requestHeaders = Some [], responseHeaders = None\<rparr>
   \<and> getNetworkRequests (snd (fst (feed network_listener ([], new_context)
      [(\<lparr>now_id = 0, random_suffix = '''', now_ts = 0\<rparr>,
        start ''r1'' \<lparr>rq_url = ''https://x'', rq_method = ''GET'', rq_headers = []\<rparr> 1 None),
       (\<lparr>now_id = 0, random_suffix = '''', now_ts = 0\<rparr>, finish ''r1'' (Some 500)),
       (\<lparr>now_id = 0, random_suffix = '''', now_ts = 0\<rparr>, finish ''r1'' (Some 500))])))
   = []"
  by (simp add: listener_start listener_finish new_context_def getNetworkRequests_def
        known_request_def)

text \<open>
  C7 (amended). For a key \<open>k\<close> whose entity is in the retrieved table (a response
  notification for \<open>k\<close> has been processed), applying finish(k, size) twice in a row
  leaves the entity of \<open>k\<close> with that size (the last value written, not a sum), in the
  listener's map and in the retrieved table alike, and every other entity as it was. For
  a key whose entity is not in the retrieved table (created by a start notification only,
  or never seen) the two notifications are ignored: the state is the one before, and the
  entity keeps the size it had. In both cases no entity is created: the listener's map
  and the number of request objects are as before, and the retrieved table never holds
  two entities for \<open>k\<close>. Applying any of the three notifications a second time with the
  same payload changes nothing: the state after the second application is the state
  after the first, and nothing is thrown.
\<close>

theorem finish_reapplied_sets_size_of_retrievable_entity:
  fixes before :: "(env \<times> payload) list" and any :: collector
    and e1 e2 :: env and k :: string and sz :: "number option"
  defines "st \<equiv> fst (feed network_listener ([], new_context) before)"
  defines "st' \<equiv> fst (feed network_listener st [(e1, finish k sz), (e2, finish k sz)])"
  shows "known_request st' j
           = (if j = k \<and> k \<in> nr_id ` set (getNetworkRequests (snd st))
              then map_option (\<lambda>r. r\<lparr>nr_size := sz\<rparr>) (known_request st j)
              else known_request st j)
       \<and> (k \<in> nr_id ` set (getNetworkRequests (snd st)) \<longrightarrow>
            (\<exists>r. known_request st' k = Some r \<and> nr_size r = sz
                \<and> r \<in> set (getNetworkRequests (snd st'))))
       \<and> (k \<notin> nr_id ` set (getNetworkRequests (snd st)) \<longrightarrow> st' = st)
       \<and> fst st' = fst st
       \<and> length (heap (snd st')) = length (heap (snd st))
       \<and> getNetworkRequests (snd st')
           = map (\<lambda>r. if nr_id r = k then r\<lparr>nr_size := sz\<rparr> else r)
               (getNetworkRequests (snd st))
       \<and> (\<forall>r\<in>set (getNetworkRequests (snd st')). nr_id r = k \<longrightarrow> nr_size r = sz)
       \<and> length (filter (\<lambda>r. nr_id r = k) (getNetworkRequests (snd st'))) \<le> 1
       \<and> network_listener e2 (finish k sz) (fst (network_listener e1 (finish k sz) any))
           = (fst (network_listener e1 (finish k sz) any), None)
       \<and> network_listener e2 (start k rq ts ty) (fst (network_listener e1 (start k rq ts ty) any))
           = (fst (network_listener e1 (start k rq ts ty) any), None)
       \<and> network_listener e2 (response_received k rs)
             (fst (network_listener e1 (response_received k rs) any))
           = (fst (network_listener e1 (response_received k rs) any), None)"
proof -
  have ok: "collector_ok st" unfolding st_def by (rule ok_reachable)
  obtain requests this where st: "st = (requests, this)" by (cases st)
  let ?once = "fst (network_listener e1 (finish k sz) st)"
  have twice: "st' = ?once"
    unfolding st'_def by (simp only: feed_two finish_twice fst_conv)
  note pub = published_iff [OF ok, of k]
  have snap: "getNetworkRequests (snd ?once)
           = map (\<lambda>r. if nr_id r = k then r\<lparr>nr_size := sz\<rparr> else r)
               (getNetworkRequests (snd st))"
  proof (cases "map_of (networkRequests this) k")
    case None
    with snapshot_no_key [OF ok [unfolded st] None] show ?thesis
      by (simp add: st listener_finish)
  next
    case (Some a)
    with snapshot_update [OF ok [unfolded st] Some] show ?thesis
      by (simp add: st listener_finish)
  qed
  have once: "collector_ok ?once" by (rule ok_network_listener [OF ok])
  then have "distinct (map fst (networkRequests (snd ?once)))"
    by (cases ?once) (simp add: collector_ok_def)
  with once have "distinct (map nr_id (getNetworkRequests (snd ?once)))"
    by (simp add: snapshot_ids')
  then have one: "length (filter (\<lambda>r. nr_id r = k) (getNetworkRequests (snd ?once))) \<le> 1"
    using filter_key_le_1 [of nr_id "getNetworkRequests (snd ?once)" k] by simp
  have sized: "\<forall>r\<in>set (getNetworkRequests (snd ?once)). nr_id r = k \<longrightarrow> nr_size r = sz"
  proof (intro ballI impI)
    fix r assume "r \<in> set (getNetworkRequests (snd ?once))" and id: "nr_id r = k"
    then have "r \<in> (\<lambda>r. if nr_id r = k then r\<lparr>nr_size := sz\<rparr> else r)
                     ` set (getNetworkRequests (snd st))"
      by (simp only: snap set_map)
    then obtain x where r: "r = (if nr_id x = k then x\<lparr>nr_size := sz\<rparr> else x)"
      by (rule imageE)
    show "nr_size r = sz"
    proof (cases "nr_id x = k")
      case True
      with r show ?thesis by simp
    next
      case False
      with r id show ?thesis by simp
    qed
  qed
  have known: "known_request ?once j
           = (if j = k \<and> k \<in> nr_id ` set (getNetworkRequests (snd st))
              then map_option (\<lambda>r. r\<lparr>nr_size := sz\<rparr>) (known_request st j)
              else known_request st j)"
    by (simp only: known_finish_any [OF ok] pub)
  have held: "\<exists>r. known_request ?once k = Some r \<and> nr_size r = sz
                \<and> r \<in> set (getNetworkRequests (snd ?once))"
    if "k \<in> nr_id ` set (getNetworkRequests (snd st))"
  proof -
    from that pub obtain a where a: "map_of (networkRequests (snd st)) k = Some a" by blast
    note p = published_in_snapshot [OF ok a]
    let ?r = "heap (snd st) ! a"
    from known_id [OF ok p(1)] have id: "nr_id ?r = k" .
    have "known_request ?once k = Some (?r\<lparr>nr_size := sz\<rparr>)"
      by (simp add: known_finish_any [OF ok] a p(1))
    moreover have "?r\<lparr>nr_size := sz\<rparr> \<in> set (getNetworkRequests (snd ?once))"
    proof -
      have "(\<lambda>r. if nr_id r = k then r\<lparr>nr_size := sz\<rparr> else r) ?r
              \<in> (\<lambda>r. if nr_id r = k then r\<lparr>nr_size := sz\<rparr> else r)
                  ` set (getNetworkRequests (snd st))"
        using p(2) by (rule imageI)
      with id show ?thesis by (simp add: snap)
    qed
    ultimately show ?thesis by simp
  qed
  have dropped: "?once = st" if "k \<notin> nr_id ` set (getNetworkRequests (snd st))"
  proof -
    from that pub have "map_of (networkRequests (snd st)) k = None" by simp
    then show ?thesis by (rule finish_unpublished)
  qed
  have 1: "known_request st' j
           = (if j = k \<and> k \<in> nr_id ` set (getNetworkRequests (snd st))
              then map_option (\<lambda>r. r\<lparr>nr_size := sz\<rparr>) (known_request st j)
              else known_request st j)"
    by (simp only: twice) (rule known)
  have 2: "k \<in> nr_id ` set (getNetworkRequests (snd st)) \<longrightarrow>
            (\<exists>r. known_request st' k = Some r \<and> nr_size r = sz
                \<and> r \<in> set (getNetworkRequests (snd st')))"
    by (simp only: twice) (rule impI, rule held)
  have 3: "k \<notin> nr_id ` set (getNetworkRequests (snd st)) \<longrightarrow> st' = st"
    by (simp only: twice) (rule impI, rule dropped)
  have 4: "fst st' = fst st"
    by (simp only: twice requests_after_finish)
  have 5: "length (heap (snd st')) = length (heap (snd st))"
    by (simp only: twice heap_length_after_finish)
  have 6: "getNetworkRequests (snd st')
           = map (\<lambda>r. if nr_id r = k then r\<lparr>nr_size := sz\<rparr> else r)
               (getNetworkRequests (snd st))"
    by (simp only: twice snap)
  have 7: "\<forall>r\<in>set (getNetworkRequests (snd st')). nr_id r = k \<longrightarrow> nr_size r = sz"
    by (simp only: twice) (rule sized)
  have 8: "length (filter (\<lambda>r. nr_id r = k) (getNetworkRequests (snd st'))) \<le> 1"
    by (simp only: twice) (rule one)
  show ?thesis
    by (intro conjI 1 2 3 4 5 6 7 8 finish_twice start_twice response_twice)
qed

theorem finish_reapplied_sets_size_of_retrievable_entity_witness:
  "''r1'' \<in> nr_id ` set (getNetworkRequests (snd (fst (feed network_listener ([], new_context)
         [(\<lparr>now_id = 0, random_suffix = '''', now_ts = 0\<rparr>,
           start ''r1'' \<lparr>rq_url = ''https://x'', rq_method = ''GET'', rq_headers = []\<rparr> 1 None),
          (\<lparr>now_id = 0, random_suffix = '''', now_ts = 0\<rparr>,
           response_received ''r1''
             \<lparr>rs_url = None, rs_status = 200, rs_headers = [],
              rs_encodedDataLength = Some 100\<rparr>)]))))
   \<and> known_request (fst (feed network_listener
      (fst (feed network_listener ([], new_context)
         [(\<lparr>now_id = 0, random_suffix = '''', now_ts = 0\<rparr>,
           start ''r1'' \<lparr>rq_url = ''https://x'', rq_method = ''GET'', rq_headers = []\<rparr> 1 None),
          (\<lparr>now_id = 0, random_suffix = '''', now_ts = 0\<rparr>,
           response_received ''r1''
             \<lparr>rs_url = None, rs_status = 200, rs_headers = [],
              rs_encodedDataLength = Some 100\<rparr>)]))
      [(\<lparr>now_id = 0, random_suffix = '''', now_ts = 0\<rparr>, finish ''r1'' (Some 500)),
       (\<lparr>now_id = 0, random_suffix = '''', now_ts = 0\<rparr>, finish ''r1'' (Some 500))])) ''r1''
   = Some \<lparr>nr_id = ''r1'', nr_url = ''https://x'', nr_method = ''GET'', nr_status = Some 200,
       nr_type = None, nr_size = Some 500, nr_timestamp = 1000, requestHeaders = Some [],
       responseHeaders = Some []\<rparr>
   \<and> getNetworkRequests (snd (fst (feed network_listener
      (fst (feed network_listener ([], new_context)
         [(\<lparr>now_id = 0, random_suffix = '''', now_ts = 0\<rparr>,
           start ''r1'' \<lparr>rq_url = ''https://x'', rq_method = ''GET'', rq_headers = []\<rparr> 1 None),
          (\<lparr>now_id = 0, random_suffix = '''', now_ts = 0\<rparr>,
           response_received ''r1''
             \<lparr>rs_url = None, rs_status = 200, rs_headers = [],
              rs_encodedDataLength = Some 100\<rparr>)]))
      [(\<lparr>now_id = 0, random_suffix = '''', now_ts = 0\<rparr>, finish ''r1'' (Some 500)),
       (\<lparr>now_id = 0, random_suffix = '''', now_ts = 0\<rparr>, finish ''r1'' (Some 500))])))
   = [\<lparr>nr_id = ''r1'', nr_url = ''https://x'', nr_method = ''GET'', nr_status = Some 200,
       nr_type = None, nr_size = Some 500, nr_timestamp = 1000, requestHeaders = Some [],
       responseHeaders = Some []\<rparr>]"
  using finish_reapplied_sets_size_of_retrievable_entity
    [where ?e1.0 = "\<lparr>now_id = 0, random_suffix = '''', now_ts = 0\<rparr>" and k = "''r1''"
        and j = "''r1''" and sz = "Some 500"
        and ?e2.0 = "\<lparr>now_id = 0, random_suffix = '''', now_ts = 0\<rparr>"
        and before = "[(\<lparr>now_id = 0, random_suffix = '''', now_ts = 0\<rparr>,
           start ''r1'' \<lparr>rq_url = ''https://x'', rq_method = ''GET'', rq_headers = []\<rparr> 1 None),
          (\<lparr>now_id = 0, random_suffix = '''', now_ts = 0\<rparr>,
           response_received ''r1''
             \<lparr>rs_url = None, rs_status = 200, rs_headers = [],
              rs_encodedDataLength = Some 100\<rparr>)]"]
  by (simp add: listener_start listener_response new_context_def getNetworkRequests_def
        update_object_def known_request_def Let_def)

text \<open>
  The claim as the spec states it fails: an entity whose url is known and not empty
  (from the response notification) has its url replaced by a later start notification
  for the same key.
\<close>

theorem known_url_overwritten_by_start:
  "map nr_url (getNetworkRequests (snd (fst (feed network_listener ([], new_context)
      [(\<lparr>now_id = 0, random_suffix = '''', now_ts = 0\<rparr>,
        response_received ''r1''
          \<lparr>rs_url = Some ''https://a'', rs_status = 200, rs_headers = [],
           rs_encodedDataLength = None\<rparr>)])))) = [''https://a'']
   \<and> map nr_url (getNetworkRequests (snd (fst (feed network_listener ([], new_context)
      [(\<lparr>now_id = 0, random_suffix = '''', now_ts = 0\<rparr>,
        response_received ''r1''
          \<lparr>rs_url = Some ''https://a'', rs_status = 200, rs_headers = [],
           rs_encodedDataLength = None\<rparr>),
       (\<lparr>now_id = 0, random_suffix = '''', now_ts = 0\<rparr>,
        start ''r1'' \<lparr>rq_url = ''https://b'', rq_method = ''GET'', rq_headers = []\<rparr>
          1 None)])))) = [''https://b'']"
  by (simp add: listener_start listener_response new_context_def getNetworkRequests_def
        update_object_def Let_def)

text \<open>
  C8 (amended). For every entity the listener knows, a later response or finish
  notification leaves its url as it is, and no notification changes its id; a later start
  notification for the same key writes the url of its payload over the known one, as it
  does the method, timestamp, type and request headers (the last writer wins), and a
  response notification for the key does so with the status, the response headers and,
  when it carries one, the size.
\<close>

theorem url_rewritten_by_start_only:
  fixes before :: "(env \<times> payload) list"
  defines "st \<equiv> fst (feed network_listener ([], new_context) before)"
  assumes "known_request st k = Some r"
  shows "nr_id r = k
       \<and> known_request (fst (network_listener e (response_received k' rs) st)) k
           = Some (if k' = k
                   then r\<lparr>nr_status := Some (rs_status rs),
                           responseHeaders := Some (rs_headers rs),
                           nr_size := (case rs_encodedDataLength rs of
                                         None \<Rightarrow> nr_size r | Some n \<Rightarrow> Some n)\<rparr>
                   else r)
       \<and> known_request (fst (network_listener e (finish k' sz) st)) k
           = Some (if k' = k \<and> map_of (networkRequests (snd st)) k \<noteq> None
                   then r\<lparr>nr_size := sz\<rparr> else r)
       \<and> known_request (fst (network_listener e (start k' rq ts ty) st)) k
           = Some (if k' = k
                   then r\<lparr>nr_url := rq_url rq, nr_method := rq_method rq,
                           nr_timestamp := ts * 1000, nr_type := ty,
                           requestHeaders := Some (rq_headers rq)\<rparr>
                   else r)
       \<and> map_option nr_url (known_request (fst (network_listener e (response_received k' rs) st)) k)
           = Some (nr_url r)
       \<and> map_option nr_url (known_request (fst (network_listener e (finish k' sz) st)) k)
           = Some (nr_url r)
       \<and> map_option nr_url (known_request (fst (network_listener e (start k rq ts ty) st)) k)
           = Some (rq_url rq)
       \<and> map_option nr_id (known_request (fst (network_listener e (response_received k' rs) st)) k)
           = Some k
       \<and> map_option nr_id (known_request (fst (network_listener e (finish k' sz) st)) k)
           = Some k
       \<and> map_option nr_id (known_request (fst (network_listener e (start k' rq ts ty) st)) k)
           = Some k"
proof -
  have ok: "collector_ok st" unfolding st_def by (rule ok_reachable)
  note r = assms(2)
  have id: "nr_id r = k" by (rule known_id [OF ok r])
  note 1 = known_response [OF ok r, of e k' rs]
  note 2 = known_finish [OF ok r, of e k' sz]
  note 3 = known_start [OF ok r, of e k' rq ts ty]
  note 4 = known_start [OF ok r, of e k rq ts ty]
  have "map_option nr_url (known_request (fst (network_listener e (response_received k' rs) st)) k)
           = Some (nr_url r)"
    by (simp add: 1)
  moreover have "map_option nr_url (known_request (fst (network_listener e (finish k' sz) st)) k)
           = Some (nr_url r)"
    by (simp add: 2)
  moreover have "map_option nr_url (known_request (fst (network_listener e (start k rq ts ty) st)) k)
           = Some (rq_url rq)"
    by (simp add: 4)
  moreover have "map_option nr_id (known_request (fst (network_listener e (response_received k' rs) st)) k)
           = Some k"
    by (simp add: 1 id)
  moreover have "map_option nr_id (known_request (fst (network_listener e (finish k' sz) st)) k)
           = Some k"
    by (simp add: 2 id)
  moreover have "map_option nr_id (known_request (fst (network_listener e (start k' rq ts ty) st)) k)
           = Some k"
    by (simp add: 3 id)
  ultimately show ?thesis using id 1 2 3 by blast
qed

theorem url_rewritten_by_start_only_witness:
  "known_request (fst (feed network_listener ([], new_context)
      [(\<lparr>now_id = 0, random_suffix = '''', now_ts = 0\<rparr>,
        response_received ''r1''
          \<lparr>rs_url = Some ''https://a'', rs_status = 200, rs_headers = [],
           rs_encodedDataLength = None\<rparr>)])) ''r1''
     = Some \<lparr>nr_id = ''r1'', nr_url = ''https://a'', nr_method = ''GET'',
             nr_status = Some 200, nr_type = None, nr_size = None, nr_timestamp = 0,
             requestHeaders = None, responseHeaders = Some []\<rparr>
   \<and> map_option nr_url (known_request (fst (network_listener
        \<lparr>now_id = 0, random_suffix = '''', now_ts = 0\<rparr>
        (start ''r1'' \<lparr>rq_url = ''https://b'', rq_method = ''GET'', rq_headers = []\<rparr> 1 None)
        (fst (feed network_listener ([], new_context)
          [(\<lparr>now_id = 0, random_suffix = '''', now_ts = 0\<rparr>,
            response_received ''r1''
              \<lparr>rs_url = Some ''https://a'', rs_status = 200, rs_headers = [],
               rs_encodedDataLength = None\<rparr>)])))) ''r1'')
     = Some ''https://b''
   \<and> map_option nr_url (known_request (fst (network_listener
        \<lparr>now_id = 0, random_suffix = '''', now_ts = 0\<rparr>
        (finish ''r1'' (Some 500))
        (fst (feed network_listener ([], new_context)
          [(\<lparr>now_id = 0, random_suffix = '''', now_ts = 0\<rparr>,
            response_received ''r1''
              \<lparr>rs_url = Some ''https://a'', rs_status = 200, rs_headers = [],
               rs_encodedDataLength = None\<rparr>)])))) ''r1'')
     = Some ''https://a''"
proof -
  let ?e = "\<lparr>now_id = 0, random_suffix = '''', now_ts = 0\<rparr>"
  let ?before = "[(?e, response_received ''r1''
          \<lparr>rs_url = Some ''https://a'', rs_status = 200, rs_headers = [],
           rs_encodedDataLength = None\<rparr>)]"
  let ?r = "\<lparr>nr_id = ''r1'', nr_url = ''https://a'', nr_method = ''GET'',
             nr_status = Some 200, nr_type = None, nr_size = None, nr_timestamp = 0,
             requestHeaders = None, responseHeaders = Some []\<rparr>"
  have known: "known_request (fst (feed network_listener ([], new_context) ?before)) ''r1''
                 = Some ?r"
    by (simp add: listener_response new_context_def known_request_def update_object_def Let_def)
  from url_rewritten_by_start_only [OF known, of ?e "''r1''" _ "Some 500"
      "\<lparr>rq_url = ''https://b'', rq_method = ''GET'', rq_headers = []\<rparr>" 1 None]
  show ?thesis using known by simp
qed

subsection \<open>The console listener\<close>

lemma map_set_fresh: "k \<notin> fst ` set m \<Longrightarrow> map_set k v m = m @ [(k, v)]"
  by (induction k v m rule: map_set.induct) auto

lemma console_listener_frame:
  "console_listener e (console_frame ev) this = (store_console (console_entry e ev) this, None)"
  by (cases ev)
     (simp_all add: console_listener_def notification_def and_then_def
        on_consoleAPICalled_def on_exceptionThrown_def)

lemma feed_console_frames:
  assumes "distinct (map fst (consoleMessages this) @ map (\<lambda>(e, ev). cm_id (console_entry e ev)) evs)"
  shows "feed console_listener this (map (\<lambda>(e, ev). (e, console_frame ev)) evs)
           = (this\<lparr>consoleMessages := consoleMessages this
                  @ map (\<lambda>(e, ev). (cm_id (console_entry e ev), console_entry e ev)) evs\<rparr>, [])"
  using assms
proof (induction evs arbitrary: this)
  case Nil
  then show ?case by simp
next
  case (Cons x evs)
  obtain e ev where x: "x = (e, ev)" by (cases x)
  let ?entry = "console_entry e ev"
  let ?ctx = "store_console ?entry this"
  from Cons.prems have fresh: "cm_id ?entry \<notin> fst ` set (consoleMessages this)"
    by (auto simp: x)
  then have stored: "consoleMessages ?ctx = consoleMessages this @ [(cm_id ?entry, ?entry)]"
    by (simp add: store_console_def map_set_fresh)
  from Cons.prems have
    "distinct (map fst (consoleMessages ?ctx) @ map (\<lambda>(e, ev). cm_id (console_entry e ev)) evs)"
    by (auto simp: stored x)
  from Cons.IH [OF this] show ?case
    by (simp add: x console_listener_frame stored) (simp add: store_console_def)
qed

lemma decimal_of_sample_time: "decimal 1698234567890 = ''1698234567890''"
  by (simp add: decimal.simps)

lemma filter_by_type_filter:
  "t \<noteq> [] \<Longrightarrow> filter_by_type (Some t) ms = filter (\<lambda>m. cm_type m = t) ms"
  by (simp add: filter_by_type_def)

lemma filter_by_type_subseq: "subseq (filter_by_type ty ms) ms"
  by (simp add: filter_by_type_def split: option.splits)

text \<open>
  C9 (amended). Whenever the ids generated for the entries are pairwise distinct,
  console-log retrieval returns the entries of a sequence of console notifications in
  their order of arrival, one entry per notification. Filtering the retrieved list by
  entry type is a projection: the result is a subsequence of the list (no entry is
  modified, the relative order is kept), every entry of the requested type is kept, and
  nothing of another type is.
\<close>

theorem console_retrieval_in_arrival_order:
  assumes "distinct (map (\<lambda>(e, ev). cm_id (console_entry e ev)) evs)"
  shows "getConsoleMessages (fst (feed console_listener new_context
             (map (\<lambda>(e, ev). (e, console_frame ev)) evs)))
           = map (\<lambda>(e, ev). console_entry e ev) evs
       \<and> snd (feed console_listener new_context
             (map (\<lambda>(e, ev). (e, console_frame ev)) evs)) = []
       \<and> subseq (filter_by_type ty ms) ms
       \<and> filter (\<lambda>m. cm_type m = t) (filter_by_type (Some t) ms)
           = filter (\<lambda>m. cm_type m = t) ms
       \<and> (t \<noteq> [] \<longrightarrow> (\<forall>m\<in>set (filter_by_type (Some t) ms). cm_type m = t))"
proof -
  from assms have
    "distinct (map fst (consoleMessages new_context)
               @ map (\<lambda>(e, ev). cm_id (console_entry e ev)) evs)"
    by (simp add: new_context_def)
  from feed_console_frames [OF this]
  have "getConsoleMessages (fst (feed console_listener new_context
             (map (\<lambda>(e, ev). (e, console_frame ev)) evs)))
           = map (\<lambda>(e, ev). console_entry e ev) evs"
    and "snd (feed console_listener new_context
             (map (\<lambda>(e, ev). (e, console_frame ev)) evs)) = []"
    by (simp_all add: getConsoleMessages_def new_context_def case_prod_beta comp_def)
  moreover have "filter (\<lambda>m. cm_type m = t) (filter_by_type (Some t) ms)
           = filter (\<lambda>m. cm_type m = t) ms"
    by (simp add: filter_by_type_def)
  moreover have "\<forall>m\<in>set (filter_by_type (Some t) ms). cm_type m = t" if "t \<noteq> []"
    using that by (simp add: filter_by_type_filter)
  ultimately show ?thesis
    using filter_by_type_subseq [of ty ms] by blast
qed

theorem console_retrieval_in_arrival_order_witness:
  "distinct (map (\<lambda>(e, ev). cm_id (console_entry e ev))
      [(\<lparr>now_id = 1698234567890, random_suffix = ''k3j9x0q2z'', now_ts = 1698234567890\<rparr>,
        ConsoleCall ''log''
          [\<lparr>arg_value = Some ''Hello world'', arg_description = None, arg_json = ''{}''\<rparr>]
          (Some 1698234567890)),
       (\<lparr>now_id = 1698234567890, random_suffix = ''4fzyo82mv'', now_ts = 1698234567890\<rparr>,
        UncaughtException
          \<lparr>ex_text = ''TypeError: Cannot read property'', lineNumber = Some 42,
           ex_url = Some ''https://example.com/app.js''\<rparr> (Some 1698234569000))])
   \<and> map cm_text (getConsoleMessages (fst (feed console_listener new_context
      (map (\<lambda>(e, ev). (e, console_frame ev))
        [(\<lparr>now_id = 1698234567890, random_suffix = ''k3j9x0q2z'', now_ts = 1698234567890\<rparr>,
          ConsoleCall ''log''
            [\<lparr>arg_value = Some ''Hello world'', arg_description = None, arg_json = ''{}''\<rparr>]
            (Some 1698234567890)),
         (\<lparr>now_id = 1698234567890, random_suffix = ''4fzyo82mv'', now_ts = 1698234567890\<rparr>,
          UncaughtException
            \<lparr>ex_text = ''TypeError: Cannot read property'', lineNumber = Some 42,
             ex_url = Some ''https://example.com/app.js''\<rparr> (Some 1698234569000))]))))
     = [''Hello world'', ''TypeError: Cannot read property'']"
proof -
  let ?evs = "[(\<lparr>now_id = 1698234567890, random_suffix = ''k3j9x0q2z'', now_ts = 1698234567890\<rparr>,
        ConsoleCall ''log''
          [\<lparr>arg_value = Some ''Hello world'', arg_description = None, arg_json = ''{}''\<rparr>]
          (Some 1698234567890)),
       (\<lparr>now_id = 1698234567890, random_suffix = ''4fzyo82mv'', now_ts = 1698234567890\<rparr>,
        UncaughtException
          \<lparr>ex_text = ''TypeError: Cannot read property'', lineNumber = Some 42,
           ex_url = Some ''https://example.com/app.js''\<rparr> (Some 1698234569000))]"
  have d: "distinct (map (\<lambda>(e, ev). cm_id (console_entry e ev)) ?evs)"
    by (simp add: consoleAPICalled_entry_def exceptionThrown_entry_def fresh_id_def
          decimal_of_sample_time)
  from console_retrieval_in_arrival_order [OF d, THEN conjunct1] d
  show ?thesis
    by (simp add: consoleAPICalled_entry_def exceptionThrown_entry_def arg_text_def)
qed

text \<open>
  The claim as the spec states it, for every sequence of console notifications, fails
  when two generated ids coincide (the same millisecond and the same random suffix):
  the store is a \<^verbatim>\<open>Map\<close> keyed by the id, so the later entry takes the place of the
  earlier one. Of three console calls A, B, C where C draws the id of A, retrieval
  returns C before B and does not return A.
\<close>

theorem console_id_collision_reorders:
  "map cm_text (getConsoleMessages (fst (feed console_listener new_context
      [(\<lparr>now_id = 1698234567890, random_suffix = ''k3j9x0q2z'', now_ts = 1698234567890\<rparr>,
        console_frame (ConsoleCall ''log''
          [\<lparr>arg_value = Some ''A'', arg_description = None, arg_json = ''{}''\<rparr>] None)),
       (\<lparr>now_id = 1698234567890, random_suffix = ''4fzyo82mv'', now_ts = 1698234567890\<rparr>,
        console_frame (ConsoleCall ''log''
          [\<lparr>arg_value = Some ''B'', arg_description = None, arg_json = ''{}''\<rparr>] None)),
       (\<lparr>now_id = 1698234567890, random_suffix = ''k3j9x0q2z'', now_ts = 1698234567890\<rparr>,
        console_frame (ConsoleCall ''log''
          [\<lparr>arg_value = Some ''C'', arg_description = None, arg_json = ''{}''\<rparr>] None))])))
   = [''C'', ''B'']"
  by (simp add: console_listener_def notification_def and_then_def on_consoleAPICalled_def
        on_exceptionThrown_def store_console_def getConsoleMessages_def
        new_context_def consoleAPICalled_entry_def fresh_id_def arg_text_def
        decimal_of_sample_time)

subsection \<open>Commands: correlation, timeout, closure\<close>

lemma settle_apply:
  "settle i out ps j = (if j = i \<and> ps i = Some Pending then Some out else ps j)"
  by (simp add: settle_def split: option.splits outcome.splits)

lemma count_le_1_remove1:
  "count_list xs x \<le> 1 \<Longrightarrow> x \<notin> set (remove1 x xs)"
  by (induction xs) (auto simp: count_list_0_iff split: if_splits)

lemma count_remove1_le: "count_list (remove1 x xs) y \<le> count_list xs y"
  by (induction xs) auto

lemma in_remove1_other: "y \<noteq> x \<Longrightarrow> y \<in> set (remove1 x xs) \<longleftrightarrow> y \<in> set xs"
  by (induction xs) auto

text \<open>What a matching frame or a timeout does to the command with id i.\<close>

lemma ok_settled:
  assumes ok: "session_ok s" and out: "out \<noteq> Pending"
  shows "session_ok (s\<lparr>timers := (timers s)(i := None),
                       listeners := remove1 (CommandHandler i) (listeners s),
                       promises := settle i out (promises s)\<rparr>)"
proof -
  let ?h = "CommandHandler i"
  from ok have
    p: "\<And>j. promises s j = Some Pending \<longleftrightarrow> CommandHandler j \<in> set (listeners s)"
    and t: "\<And>j. timers s j \<noteq> None \<longleftrightarrow> CommandHandler j \<in> set (listeners s)"
    and b: "\<And>j. promises s j \<noteq> None \<Longrightarrow> j < messageId (ctx s)"
    and c: "\<And>j. count_list (listeners s) (CommandHandler j) \<le> 1"
    and m: "\<And>j m. timers s j = Some m \<Longrightarrow>
          (\<exists>ps. \<lparr>out_id = j, out_method = m, out_params = ps\<rparr> \<in> set (sent s))"
    unfolding session_ok_def by blast+
  have gone: "?h \<notin> set (remove1 ?h (listeners s))" by (rule count_le_1_remove1 [OF c])
  have other: "CommandHandler j \<in> set (remove1 ?h (listeners s)) \<longleftrightarrow>
                 CommandHandler j \<in> set (listeners s)" if "j \<noteq> i" for j
    using that by (simp add: in_remove1_other)
  have 1: "settle i out (promises s) j = Some Pending \<longleftrightarrow>
             CommandHandler j \<in> set (remove1 ?h (listeners s))" for j
  proof (cases "j = i")
    case True
    with gone out show ?thesis by (auto simp: settle_apply)
  next
    case False
    with other [OF False] p [of j] show ?thesis by (simp add: settle_apply)
  qed
  have 2: "((timers s)(i := None)) j \<noteq> None \<longleftrightarrow>
             CommandHandler j \<in> set (remove1 ?h (listeners s))" for j
  proof (cases "j = i")
    case True
    with gone show ?thesis by simp
  next
    case False
    with other [OF False] t [of j] show ?thesis by simp
  qed
  have 3: "j < messageId (ctx s)" if "settle i out (promises s) j \<noteq> None" for j
    using that b [of j] by (auto simp: settle_apply split: if_splits)
  have 4: "count_list (remove1 ?h (listeners s)) (CommandHandler j) \<le> 1" for j
    using count_remove1_le [of ?h "listeners s" "CommandHandler j"] c [of j] by linarith
  have 5: "\<exists>ps. \<lparr>out_id = j, out_method = m', out_params = ps\<rparr> \<in> set (sent s)"
    if "((timers s)(i := None)) j = Some m'" for j m'
    using that m [of j m'] by (auto split: if_splits)
  from 1 2 3 4 5 show ?thesis
    unfolding session_ok_def by simp
qed

lemma ok_messageHandler: "session_ok s \<Longrightarrow> session_ok (fst (messageHandler i p s))"
  by (cases p) (auto simp: messageHandler_def intro!: ok_settled split: option.splits)

lemma ok_timeout_callback: "session_ok s \<Longrightarrow> session_ok (timeout_callback i s)"
  by (auto simp: timeout_callback_def intro!: ok_settled split: option.splits)

lemma messageId_console_listener:
  "messageId (fst (console_listener e p this)) = messageId this"
  by (cases p)
     (auto simp: console_listener_def and_then_def on_consoleAPICalled_def
        on_exceptionThrown_def store_console_def
      split: option.splits params.splits prod.splits)

lemma messageId_network_listener:
  "messageId (snd (fst (network_listener e p st))) = messageId (snd st)"
  by (cases p; cases st)
     (auto simp: network_listener_def and_then_def on_requestWillBeSent_def
        on_responseReceived_def on_loadingFinished_def update_object_def Let_def
      split: option.splits params.splits prod.splits)

lemma ok_frame:
  assumes "session_ok s" and "listeners s' = listeners s" and "timers s' = timers s"
    and "promises s' = promises s" and "sent s' = sent s"
    and "messageId (ctx s') = messageId (ctx s)"
  shows "session_ok s'"
  using assms by (simp add: session_ok_def)

lemma ok_call_listener: "session_ok s \<Longrightarrow> session_ok (fst (call_listener e p l s))"
proof (cases l)
  case (CommandHandler i)
  assume "session_ok s"
  then show ?thesis by (simp add: call_listener_def CommandHandler ok_messageHandler)
next
  case ConsoleCollector
  assume ok: "session_ok s"
  show ?thesis
    by (rule ok_frame [OF ok])
       (simp_all add: call_listener_def ConsoleCollector messageId_console_listener
          case_prod_unfold)
next
  case (NetworkCollector c)
  assume ok: "session_ok s"
  show ?thesis
  proof (cases "c < length (closures s)")
    case False
    with ok show ?thesis by (simp add: call_listener_def NetworkCollector)
  next
    case True
    have "messageId (snd (fst (network_listener e p (closures s ! c, ctx s)))) = messageId (ctx s)"
      by (simp add: messageId_network_listener)
    with True show ?thesis
      by (intro ok_frame [OF ok])
         (simp_all add: call_listener_def NetworkCollector case_prod_unfold)
  qed
qed

lemma ok_emit_to: "session_ok s \<Longrightarrow> session_ok (fst (emit_to es p n ls s))"
proof (induction ls arbitrary: s n)
  case Nil
  then show ?case by simp
next
  case (Cons l ls)
  from Cons.prems have ok: "session_ok (fst (call_listener (es n) p l s))"
    by (rule ok_call_listener)
  obtain s' x where c: "call_listener (es n) p l s = (s', x)"
    by (cases "call_listener (es n) p l s")
  with ok have "session_ok s'" by simp
  with Cons.IH [of s' "Suc n"] show ?case by (cases x) (simp_all add: c)
qed

lemma ok_sendCommand: "session_ok s \<Longrightarrow> session_ok (snd (sendCommand method ps s))"
proof -
  assume ok: "session_ok s"
  let ?i = "messageId (ctx s)"
  from ok have
    p: "\<And>j. promises s j = Some Pending \<longleftrightarrow> CommandHandler j \<in> set (listeners s)"
    and t: "\<And>j. timers s j \<noteq> None \<longleftrightarrow> CommandHandler j \<in> set (listeners s)"
    and b: "\<And>j. promises s j \<noteq> None \<Longrightarrow> j < messageId (ctx s)"
    and c: "\<And>j. count_list (listeners s) (CommandHandler j) \<le> 1"
    and m: "\<And>j m. timers s j = Some m \<Longrightarrow>
          (\<exists>ps. \<lparr>out_id = j, out_method = m, out_params = ps\<rparr> \<in> set (sent s))"
    unfolding session_ok_def by blast+
  have new: "CommandHandler ?i \<notin> set (listeners s)"
  proof
    assume "CommandHandler ?i \<in> set (listeners s)"
    with p [of ?i] have "promises s ?i \<noteq> None" by simp
    from b [OF this] show False by simp
  qed
  then have cnt: "count_list (listeners s) (CommandHandler ?i) = 0"
    by (simp add: count_list_0_iff)
  have 1: "((promises s)(?i \<mapsto> Pending)) j = Some Pending \<longleftrightarrow>
             CommandHandler j \<in> set (listeners s @ [CommandHandler ?i])" for j
    using p [of j] by simp
  have 2: "((timers s)(?i \<mapsto> method)) j \<noteq> None \<longleftrightarrow>
             CommandHandler j \<in> set (listeners s @ [CommandHandler ?i])" for j
    using t [of j] by simp
  have 3: "j < ?i + 1" if "((promises s)(?i \<mapsto> Pending)) j \<noteq> None" for j
  proof (cases "j = ?i")
    case True
    then show ?thesis by simp
  next
    case False
    with that have "promises s j \<noteq> None" by simp
    from b [OF this] show ?thesis by simp
  qed
  have 4: "count_list (listeners s @ [CommandHandler ?i]) (CommandHandler j) \<le> 1" for j
    using c [of j] cnt by (cases "j = ?i") simp_all
  have 5: "\<exists>ps'. \<lparr>out_id = j, out_method = m', out_params = ps'\<rparr>
             \<in> set (sent s @ [\<lparr>out_id = ?i, out_method = method, out_params = ps\<rparr>])"
    if "((timers s)(?i \<mapsto> method)) j = Some m'" for j m'
  proof (cases "j = ?i")
    case True
    with that show ?thesis by auto
  next
    case False
    with that have "timers s j = Some m'" by simp
    from m [OF this] show ?thesis by auto
  qed
  from 1 2 3 4 5 show ?thesis
    unfolding session_ok_def sendCommand_def Let_def by simp
qed

lemma ok_new_session: "session_ok new_session"
  by (simp add: session_ok_def new_session_def)

lemma ok_setup:
  assumes "session_ok s" and "\<And>i. l \<noteq> CommandHandler i"
  shows "session_ok (s\<lparr>listeners := listeners s @ [l]\<rparr>)"
proof -
  have "CommandHandler i \<noteq> l" and "l \<noteq> CommandHandler i" for i
    using assms(2) [of i] by simp_all
  with assms(1) show ?thesis by (simp add: session_ok_def)
qed

lemma ok_step: "session_ok s \<Longrightarrow> session_ok (fst (step s ev))"
proof (cases ev)
  case (SendCommand name ps)
  assume "session_ok s"
  then show ?thesis by (simp add: SendCommand ok_sendCommand)
next
  case (Receive p es)
  assume "session_ok s"
  then show ?thesis by (simp add: Receive emit_def ok_emit_to)
next
  case (TimerFired i)
  assume "session_ok s"
  then show ?thesis by (simp add: TimerFired ok_timeout_callback)
next
  case Close
  assume "session_ok s"
  then show ?thesis by (simp add: Close session_ok_def)
next
  case SetupConsoleCollection
  assume "session_ok s"
  then show ?thesis
    by (simp add: SetupConsoleCollection setupConsoleCollection_def ok_setup)
next
  case SetupNetworkCollection
  assume ok: "session_ok s"
  have "session_ok (s\<lparr>listeners := listeners s @ [NetworkCollector (length (closures s))]\<rparr>)"
    by (rule ok_setup [OF ok]) simp
  then show ?thesis
    by (simp add: SetupNetworkCollection setupNetworkCollection_def session_ok_def)
qed

lemma run_Cons_fst: "fst (run s (ev # evs)) = fst (run (fst (step s ev)) evs)"
  by (simp split: prod.splits)

lemma ok_run: "session_ok s \<Longrightarrow> session_ok (fst (run s evs))"
proof (induction evs arbitrary: s)
  case Nil
  then show ?case by simp
next
  case (Cons ev evs)
  from Cons.prems have "session_ok (fst (step s ev))" by (rule ok_step)
  then have "session_ok (fst (run (fst (step s ev)) evs))" by (rule Cons.IH)
  then show ?case by (simp only: run_Cons_fst)
qed

lemma ok_reachable_session: "session_ok (fst (run new_session evs))"
  by (rule ok_run [OF ok_new_session])

text \<open>A frame without a method passes the collectors untouched.\<close>

lemma console_listener_no_method:
  "msg_method m = None \<Longrightarrow> console_listener e (Message m) this = (this, None)"
  by (simp add: console_listener_def and_then_def on_consoleAPICalled_def
        on_exceptionThrown_def)

lemma network_listener_no_method:
  "msg_method m = None \<Longrightarrow> network_listener e (Message m) st = (st, None)"
  by (cases st)
     (simp add: network_listener_def and_then_def on_requestWillBeSent_def
        on_responseReceived_def on_loadingFinished_def)

lemma call_collector_no_method:
  assumes "msg_method m = None" and "\<And>i. l \<noteq> CommandHandler i"
  shows "call_listener e (Message m) l s = (s, None)"
proof (cases l)
  case (CommandHandler i)
  with assms(2) [of i] show ?thesis by simp
next
  case ConsoleCollector
  with assms(1) show ?thesis
    by (simp add: call_listener_def console_listener_no_method)
next
  case (NetworkCollector c)
  with assms(1) show ?thesis
    by (simp add: call_listener_def network_listener_no_method)
qed

text \<open>The emission of a frame that carries an id and no method.\<close>

lemma emit_to_command_frame:
  assumes "msg_method m = None" and "msg_id m = Some i"
    and "count_list ls (CommandHandler i) \<le> 1"
  shows "emit_to es (Message m) n ls s =
           (if CommandHandler i \<in> set ls
            then s\<lparr>timers := (timers s)(i := None),
                   listeners := remove1 (CommandHandler i) (listeners s),
                   promises := settle i
                      (case error m of
                         Some e \<Rightarrow> Rejected (Error (error_text e))
                       | None \<Rightarrow> Resolved (result m))
                      (promises s)\<rparr>
            else s, None)"
  using assms(3)
proof (induction ls arbitrary: s n)
  case Nil
  then show ?case by simp
next
  case (Cons l ls)
  show ?case
  proof (cases "l = CommandHandler i")
    case True
    with Cons.prems have none: "CommandHandler i \<notin> set ls"
      by (simp add: count_list_0_iff)
    then have "count_list ls (CommandHandler i) \<le> 1" by (simp add: count_list_0_iff)
    from Cons.IH [OF this] none True assms(2) show ?thesis
      by (simp add: call_listener_def messageHandler_def)
  next
    case False
    with Cons.prems have c: "count_list ls (CommandHandler i) \<le> 1" by simp
    have "call_listener (es n) (Message m) l s = (s, None)"
    proof (cases "\<exists>j. l = CommandHandler j")
      case True
      then obtain j where j: "l = CommandHandler j" by blast
      with False have "j \<noteq> i" by simp
      with assms(2) show ?thesis by (simp add: j call_listener_def messageHandler_def)
    next
      case False
      then show ?thesis by (intro call_collector_no_method assms(1)) simp
    qed
    with Cons.IH [OF c] False show ?thesis by simp
  qed
qed

lemma step_command_frame:
  assumes ok: "session_ok s" and m: "msg_method m = None" "msg_id m = Some i"
  shows "step s (Receive (Message m) es) =
           (if CommandHandler i \<in> set (listeners s)
            then s\<lparr>timers := (timers s)(i := None),
                   listeners := remove1 (CommandHandler i) (listeners s),
                   promises := settle i
                      (case error m of
                         Some e \<Rightarrow> Rejected (Error (error_text e))
                       | None \<Rightarrow> Resolved (result m))
                      (promises s)\<rparr>
            else s, None)"
proof -
  from ok have "count_list (listeners s) (CommandHandler i) \<le> 1"
    by (simp add: session_ok_def)
  from emit_to_command_frame [OF m this] show ?thesis by (simp add: emit_def)
qed

text \<open>A settled promise stays as it is.\<close>

lemma settled_call_listener:
  assumes "promises s i = Some out" and "out \<noteq> Pending"
  shows "promises (fst (call_listener e p l s)) i = Some out"
proof (cases l)
  case (CommandHandler j)
  with assms show ?thesis
    by (cases p) (auto simp: call_listener_def messageHandler_def settle_apply)
next
  case ConsoleCollector
  with assms show ?thesis by (simp add: call_listener_def case_prod_unfold)
next
  case (NetworkCollector c)
  with assms show ?thesis by (simp add: call_listener_def case_prod_unfold)
qed

lemma settled_emit_to:
  assumes "promises s i = Some out" and "out \<noteq> Pending"
  shows "promises (fst (emit_to es p n ls s)) i = Some out"
  using assms(1)
proof (induction ls arbitrary: s n)
  case Nil
  then show ?case by simp
next
  case (Cons l ls)
  obtain s' x where c: "call_listener (es n) p l s = (s', x)"
    by (cases "call_listener (es n) p l s")
  from settled_call_listener [OF Cons.prems assms(2), of "es n" p l] c
  have "promises s' i = Some out" by simp
  from Cons.IH [OF this, of "Suc n"] this show ?case by (cases x) (simp_all add: c)
qed

lemma settled_step:
  assumes ok: "session_ok s" and "promises s i = Some out" and "out \<noteq> Pending"
  shows "promises (fst (step s ev)) i = Some out"
proof (cases ev)
  case (SendCommand name ps)
  from ok assms(2) have "i < messageId (ctx s)" by (simp add: session_ok_def)
  with assms(2) show ?thesis by (simp add: SendCommand sendCommand_def Let_def)
next
  case (Receive p es)
  with settled_emit_to [OF assms(2,3)] show ?thesis by (simp add: emit_def)
next
  case (TimerFired j)
  with assms(2,3) show ?thesis
    by (auto simp: timeout_callback_def settle_apply split: option.splits)
next
  case Close
  with assms(2) show ?thesis by simp
next
  case SetupConsoleCollection
  with assms(2) show ?thesis by (simp add: setupConsoleCollection_def)
next
  case SetupNetworkCollection
  with assms(2) show ?thesis by (simp add: setupNetworkCollection_def)
qed

lemma settled_run:
  assumes "out \<noteq> Pending"
  shows "session_ok s \<Longrightarrow> promises s i = Some out \<Longrightarrow> promises (fst (run s evs)) i = Some out"
proof (induction evs arbitrary: s)
  case Nil
  then show ?case by simp
next
  case (Cons ev evs)
  from Cons.prems have "session_ok (fst (step s ev))" by (intro ok_step)
  moreover from Cons.prems assms have "promises (fst (step s ev)) i = Some out"
    by (intro settled_step)
  ultimately have "promises (fst (run (fst (step s ev)) evs)) i = Some out" by (rule Cons.IH)
  then show ?case by (simp only: run_Cons_fst)
qed

lemma closures_frame:
  assumes "closures_ok s" and "set (listeners s') \<subseteq> set (listeners s)"
    and "length (closures s') = length (closures s)"
  shows "closures_ok s'"
  using assms by (auto simp: closures_ok_def)

lemma closures_call_listener: "closures_ok s \<Longrightarrow> closures_ok (fst (call_listener e p l s))"
proof (cases l)
  case (CommandHandler i)
  assume ok: "closures_ok s"
  show ?thesis
    by (rule closures_frame [OF ok]; cases p)
       (auto simp: call_listener_def CommandHandler messageHandler_def
          dest: set_remove1_subset [THEN subsetD])
next
  case ConsoleCollector
  assume ok: "closures_ok s"
  show ?thesis
    by (rule closures_frame [OF ok])
       (simp_all add: call_listener_def ConsoleCollector case_prod_unfold)
next
  case (NetworkCollector c)
  assume ok: "closures_ok s"
  show ?thesis
    by (rule closures_frame [OF ok])
       (simp_all add: call_listener_def NetworkCollector case_prod_unfold)
qed

lemma closures_emit_to: "closures_ok s \<Longrightarrow> closures_ok (fst (emit_to es p n ls s))"
proof (induction ls arbitrary: s n)
  case Nil
  then show ?case by simp
next
  case (Cons l ls)
  obtain s' x where c: "call_listener (es n) p l s = (s', x)"
    by (cases "call_listener (es n) p l s")
  from closures_call_listener [OF Cons.prems, of "es n" p l] c have "closures_ok s'" by simp
  with Cons.IH [of s' "Suc n"] show ?case by (cases x) (simp_all add: c)
qed

lemma closures_step: "closures_ok s \<Longrightarrow> closures_ok (fst (step s ev))"
proof (cases ev)
  case (SendCommand name ps)
  assume "closures_ok s"
  then show ?thesis by (auto simp: SendCommand sendCommand_def Let_def closures_ok_def)
next
  case (Receive p es)
  assume "closures_ok s"
  then show ?thesis by (simp add: Receive emit_def closures_emit_to)
next
  case (TimerFired i)
  assume "closures_ok s"
  then show ?thesis
    by (auto simp: TimerFired timeout_callback_def closures_ok_def
          split: option.splits dest: set_remove1_subset [THEN subsetD])
next
  case Close
  assume "closures_ok s"
  then show ?thesis by (simp add: Close closures_ok_def)
next
  case SetupConsoleCollection
  assume "closures_ok s"
  then show ?thesis
    by (simp add: SetupConsoleCollection setupConsoleCollection_def closures_ok_def)
next
  case SetupNetworkCollection
  assume "closures_ok s"
  then show ?thesis
    by (auto simp: SetupNetworkCollection setupNetworkCollection_def closures_ok_def
          less_Suc_eq)
qed

lemma closures_run: "closures_ok s \<Longrightarrow> closures_ok (fst (run s evs))"
proof (induction evs arbitrary: s)
  case Nil
  then show ?case by simp
next
  case (Cons ev evs)
  from Cons.prems have "closures_ok (fst (step s ev))" by (rule closures_step)
  then have "closures_ok (fst (run (fst (step s ev)) evs))" by (rule Cons.IH)
  then show ?case by (simp only: run_Cons_fst)
qed

lemma closures_reachable: "closures_ok (fst (run new_session evs))"
  by (rule closures_run) (simp add: closures_ok_def new_session_def)

lemma call_listener_NotJSON:
  assumes "\<And>c. l = NetworkCollector c \<Longrightarrow> c < length (closures s)"
  shows "call_listener e NotJSON l s = (s, Some SyntaxError)"
proof (cases l)
  case (CommandHandler i)
  then show ?thesis by (simp add: call_listener_def messageHandler_def)
next
  case ConsoleCollector
  then show ?thesis by (simp add: call_listener_def console_listener_def)
next
  case (NetworkCollector c)
  with assms have "c < length (closures s)" by simp
  with NetworkCollector show ?thesis by (simp add: call_listener_def network_listener_def)
qed

lemma step_NotJSON:
  assumes "closures_ok s"
  shows "step s (Receive NotJSON es) = (s, if listeners s = [] then None else Some SyntaxError)"
proof (cases "listeners s")
  case Nil
  then show ?thesis by (simp add: emit_def)
next
  case (Cons l ls)
  have "call_listener (es 0) NotJSON l s = (s, Some SyntaxError)"
  proof (rule call_listener_NotJSON)
    fix c assume "l = NetworkCollector c"
    with Cons assms show "c < length (closures s)" by (simp add: closures_ok_def)
  qed
  with Cons show ?thesis by (simp add: emit_def)
qed

lemma feed_append:
  "feed l st (xs @ ys)
     = (fst (feed l (fst (feed l st xs)) ys), snd (feed l st xs) @ snd (feed l (fst (feed l st xs)) ys))"
proof (induction xs arbitrary: st)
  case Nil
  then show ?case by simp
next
  case (Cons x xs)
  obtain e p where x: "x = (e, p)" by (cases x)
  show ?case
    by (cases "l e p st") (simp add: x Cons.IH split: prod.splits option.splits)
qed

lemma run_Cons_snd:
  "snd (run s (ev # evs))
     = (case snd (step s ev) of None \<Rightarrow> [] | Some x \<Rightarrow> [x]) @ snd (run (fst (step s ev)) evs)"
  by (simp split: prod.splits option.splits)

lemma step_command_result:
  assumes ok: "session_ok s"
  shows "snd (step s (Receive (command_result i r) es)) = None"
    and "session_ok (fst (step s (Receive (command_result i r) es)))"
    and "promises s i = Some Pending
           \<Longrightarrow> promises (fst (step s (Receive (command_result i r) es))) i = Some (Resolved r)"
    and "promises s i \<noteq> Some Pending
           \<Longrightarrow> fst (step s (Receive (command_result i r) es)) = s"
    and "j \<noteq> i \<Longrightarrow> promises (fst (step s (Receive (command_result i r) es))) j = promises s j"
proof -
  let ?m = "\<lparr>msg_id = Some i, msg_method = None, params = None, result = r, error = None\<rparr>"
  have eq: "step s (Receive (command_result i r) es) =
           (if CommandHandler i \<in> set (listeners s)
            then s\<lparr>timers := (timers s)(i := None),
                   listeners := remove1 (CommandHandler i) (listeners s),
                   promises := settle i (Resolved r) (promises s)\<rparr>
            else s, None)"
    using step_command_frame [OF ok, of ?m i es] by (simp add: command_result_def)
  from ok have p: "promises s i = Some Pending \<longleftrightarrow> CommandHandler i \<in> set (listeners s)"
    by (simp add: session_ok_def)
  show "snd (step s (Receive (command_result i r) es)) = None"
    by (simp add: eq del: step.simps)
  show "session_ok (fst (step s (Receive (command_result i r) es)))" by (rule ok_step [OF ok])
  show "promises (fst (step s (Receive (command_result i r) es))) i = Some (Resolved r)"
    if "promises s i = Some Pending"
    using that p by (simp add: eq settle_apply del: step.simps)
  show "fst (step s (Receive (command_result i r) es)) = s" if "promises s i \<noteq> Some Pending"
    using that p by (simp add: eq del: step.simps)
  show "promises (fst (step s (Receive (command_result i r) es))) j = promises s j" if "j \<noteq> i"
    using that by (simp add: eq settle_apply del: step.simps)
qed

lemma responses_in_any_order:
  assumes "session_ok s"
    and "\<forall>i\<in>set ids. promises s i = Some Pending \<or> promises s i = Some (Resolved (res i))"
  shows "(\<forall>i\<in>set ids.
            promises (fst (run s (map (\<lambda>i. Receive (command_result i (res i)) (es i)) ids))) i
              = Some (Resolved (res i)))
       \<and> (\<forall>j. j \<notin> set ids \<longrightarrow>
            promises (fst (run s (map (\<lambda>i. Receive (command_result i (res i)) (es i)) ids))) j
              = promises s j)
       \<and> snd (run s (map (\<lambda>i. Receive (command_result i (res i)) (es i)) ids)) = []"
  using assms
proof (induction ids arbitrary: s)
  case Nil
  then show ?case by simp
next
  case (Cons i ids)
  let ?f = "\<lambda>i. Receive (command_result i (res i)) (es i)"
  let ?s1 = "fst (step s (?f i))"
  note st = step_command_result [OF Cons.prems(1), where i = i and r = "res i" and es = "es i"]
  have here: "promises ?s1 i = Some (Resolved (res i))"
  proof (cases "promises s i = Some Pending")
    case True
    then show ?thesis by (rule st(3))
  next
    case False
    with Cons.prems(2) st(4) [OF False] show ?thesis by simp
  qed
  have "\<forall>j\<in>set ids. promises ?s1 j = Some Pending \<or> promises ?s1 j = Some (Resolved (res j))"
  proof
    fix j assume j: "j \<in> set ids"
    show "promises ?s1 j = Some Pending \<or> promises ?s1 j = Some (Resolved (res j))"
    proof (cases "j = i")
      case True
      with here show ?thesis by simp
    next
      case False
      with st(5) [OF False] Cons.prems(2) j show ?thesis by simp
    qed
  qed
  from Cons.IH [OF st(2) this] have
    ih1: "\<And>j. j \<in> set ids \<Longrightarrow> promises (fst (run ?s1 (map ?f ids))) j = Some (Resolved (res j))"
    and ih2: "\<And>j. j \<notin> set ids \<Longrightarrow> promises (fst (run ?s1 (map ?f ids))) j = promises ?s1 j"
    and ih3: "snd (run ?s1 (map ?f ids)) = []"
    by blast+
  have run: "fst (run s (map ?f (i # ids))) = fst (run ?s1 (map ?f ids))"
    by (simp only: list.map run_Cons_fst)
  have 1: "promises (fst (run s (map ?f (i # ids)))) j = Some (Resolved (res j))"
    if "j \<in> set (i # ids)" for j
  proof (cases "j \<in> set ids")
    case True
    with ih1 show ?thesis by (simp only: run)
  next
    case False
    with that have "j = i" by simp
    with ih2 [OF False] here show ?thesis by (simp only: run)
  qed
  have 2: "promises (fst (run s (map ?f (i # ids)))) j = promises s j"
    if "j \<notin> set (i # ids)" for j
  proof -
    from that have j: "j \<notin> set ids" "j \<noteq> i" by simp_all
    from ih2 [OF j(1)] st(5) [OF j(2)] show ?thesis by (simp only: run)
  qed
  have 3: "snd (run s (map ?f (i # ids))) = []"
    by (simp only: list.map run_Cons_snd ih3 st(1)) simp
  from 1 2 3 show ?case by blast
qed

text \<open>
  C1. In a session that started fresh, whatever was sent and received so far and in
  whatever order, take any commands that are pending and deliver a result frame for each,
  in any order (the list \<open>ids\<close>): each call is then resolved with exactly the result
  that the frame with its own id carries, every other call is as it was, and no listener
  throws. The id of a call is the one \<^verbatim>\<open>sendCommand\<close> assigns: it was never used before
  in the session, and the call starts pending under it.
\<close>

theorem responses_matched_by_id:
  fixes evs :: "event list" and ids :: "number list"
  defines "s \<equiv> fst (run new_session evs)"
  assumes "\<forall>i\<in>set ids. promises s i = Some Pending"
  shows "(\<forall>i\<in>set ids.
            promises (fst (run s (map (\<lambda>i. Receive (command_result i (res i)) (es i)) ids))) i
              = Some (Resolved (res i)))
       \<and> (\<forall>j. j \<notin> set ids \<longrightarrow>
            promises (fst (run s (map (\<lambda>i. Receive (command_result i (res i)) (es i)) ids))) j
              = promises s j)
       \<and> snd (run s (map (\<lambda>i. Receive (command_result i (res i)) (es i)) ids)) = []
       \<and> promises s (fst (sendCommand method ps s)) = None
       \<and> promises (snd (sendCommand method ps s)) (fst (sendCommand method ps s)) = Some Pending
       \<and> (\<forall>j. j \<noteq> fst (sendCommand method ps s) \<longrightarrow>
            promises (snd (sendCommand method ps s)) j = promises s j)"
proof -
  have ok: "session_ok s" unfolding s_def by (rule ok_reachable_session)
  from assms(2) have
    "\<forall>i\<in>set ids. promises s i = Some Pending \<or> promises s i = Some (Resolved (res i))"
    by simp
  note r = responses_in_any_order [OF ok this, of es]
  have "promises s (messageId (ctx s)) = None"
  proof (rule ccontr)
    assume used: "promises s (messageId (ctx s)) \<noteq> None"
    from ok have "\<And>j. promises s j \<noteq> None \<Longrightarrow> j < messageId (ctx s)"
      by (simp add: session_ok_def)
    from this [OF used] show False by simp
  qed
  then have "promises s (fst (sendCommand method ps s)) = None"
    by (simp add: sendCommand_def Let_def)
  moreover have
    "promises (snd (sendCommand method ps s)) (fst (sendCommand method ps s)) = Some Pending"
    by (simp add: sendCommand_def Let_def)
  moreover have "\<forall>j. j \<noteq> fst (sendCommand method ps s) \<longrightarrow>
            promises (snd (sendCommand method ps s)) j = promises s j"
    by (simp add: sendCommand_def Let_def)
  ultimately show ?thesis using r by blast
qed

theorem responses_matched_by_id_witness:
  "promises (fst (run new_session
        [SendCommand ''A'' None, SendCommand ''B'' None, SendCommand ''C'' None])) 1
       = Some Pending
   \<and> promises (fst (run new_session
        [SendCommand ''A'' None, SendCommand ''B'' None, SendCommand ''C'' None])) 2
       = Some Pending
   \<and> promises (fst (run new_session
        [SendCommand ''A'' None, SendCommand ''B'' None, SendCommand ''C'' None])) 3
       = Some Pending
   \<and> promises (fst (run (fst (run new_session
        [SendCommand ''A'' None, SendCommand ''B'' None, SendCommand ''C'' None]))
        (map (\<lambda>i. Receive (command_result i (Some (JNum (10 * i))))
                    (\<lambda>n. \<lparr>now_id = 0, random_suffix = '''', now_ts = 0\<rparr>)) [2, 3, 1]))) 1
       = Some (Resolved (Some (JNum 10)))
   \<and> promises (fst (run (fst (run new_session
        [SendCommand ''A'' None, SendCommand ''B'' None, SendCommand ''C'' None]))
        (map (\<lambda>i. Receive (command_result i (Some (JNum (10 * i))))
                    (\<lambda>n. \<lparr>now_id = 0, random_suffix = '''', now_ts = 0\<rparr>)) [2, 3, 1]))) 2
       = Some (Resolved (Some (JNum 20)))
   \<and> promises (fst (run (fst (run new_session
        [SendCommand ''A'' None, SendCommand ''B'' None, SendCommand ''C'' None]))
        (map (\<lambda>i. Receive (command_result i (Some (JNum (10 * i))))
                    (\<lambda>n. \<lparr>now_id = 0, random_suffix = '''', now_ts = 0\<rparr>)) [2, 3, 1]))) 3
       = Some (Resolved (Some (JNum 30)))"
proof -
  let ?evs = "[SendCommand ''A'' None, SendCommand ''B'' None, SendCommand ''C'' None]"
  have pending: "\<forall>i\<in>set [2, 3, 1]. promises (fst (run new_session ?evs)) i = Some Pending"
    by (simp add: new_session_def new_context_def sendCommand_def Let_def)
  from responses_matched_by_id [OF pending, THEN conjunct1,
      of "\<lambda>i. Some (JNum (10 * i))" "\<lambda>i n. \<lparr>now_id = 0, random_suffix = '''', now_ts = 0\<rparr>"]
  show ?thesis using pending by simp
qed

lemma pending_armed:
  assumes "session_ok s" and "promises s i = Some Pending"
  shows "CommandHandler i \<in> set (listeners s)"
    and "\<exists>m ps. timers s i = Some m
           \<and> \<lparr>out_id = i, out_method = m, out_params = ps\<rparr> \<in> set (sent s)"
proof -
  from assms show h: "CommandHandler i \<in> set (listeners s)" by (simp add: session_ok_def)
  from assms(1) have
    t: "timers s i \<noteq> None \<longleftrightarrow> CommandHandler i \<in> set (listeners s)"
    and m: "\<And>m. timers s i = Some m \<Longrightarrow>
          (\<exists>ps. \<lparr>out_id = i, out_method = m, out_params = ps\<rparr> \<in> set (sent s))"
    unfolding session_ok_def by blast+
  from t h obtain m' where "timers s i = Some m'" by auto
  with m [OF this] show "\<exists>m ps. timers s i = Some m
           \<and> \<lparr>out_id = i, out_method = m, out_params = ps\<rparr> \<in> set (sent s)"
    by blast
qed

lemma settled_disarmed:
  assumes "session_ok s" and "promises s i \<noteq> Some Pending"
  shows "CommandHandler i \<notin> set (listeners s)" and "timers s i = None"
proof -
  from assms(1) have
    p: "promises s i = Some Pending \<longleftrightarrow> CommandHandler i \<in> set (listeners s)"
    and t: "timers s i \<noteq> None \<longleftrightarrow> CommandHandler i \<in> set (listeners s)"
    unfolding session_ok_def by blast+
  from p assms(2) show "CommandHandler i \<notin> set (listeners s)" by simp
  with t show "timers s i = None" by simp
qed

lemma step_command_error:
  assumes ok: "session_ok s" and p: "promises s i = Some Pending"
  shows "promises (fst (step s (Receive (command_error i e) es))) i
           = Some (Rejected (Error (error_text e)))"
proof -
  let ?m = "\<lparr>msg_id = Some i, msg_method = None, params = None, result = None,
             error = Some e\<rparr>"
  have "step s (Receive (command_error i e) es) =
           (if CommandHandler i \<in> set (listeners s)
            then s\<lparr>timers := (timers s)(i := None),
                   listeners := remove1 (CommandHandler i) (listeners s),
                   promises := settle i (Rejected (Error (error_text e))) (promises s)\<rparr>
            else s, None)"
    using step_command_frame [OF ok, of ?m i es] by (simp add: command_error_def)
  with pending_armed(1) [OF ok p] p show ?thesis
    by (simp add: settle_apply del: step.simps)
qed

lemma step_timer_fired:
  assumes "promises s i = Some Pending" and "timers s i = Some m"
  shows "promises (fst (step s (TimerFired i))) i
           = Some (Rejected (Error (''Command timeout: '' @ m)))"
  using assms by (simp add: timeout_callback_def settle_apply)

text \<open>
  C3. For every command that is pending in a session that started fresh, the handler is
  registered and the timeout armed, with the method of the frame that was sent. When the
  timeout fires first, the call is rejected with "Command timeout: method"; when a frame
  with the command's id arrives first, the call is resolved with its result, or rejected
  with the remote error's message when the frame carries an error. Whichever happens
  first unregisters the handler and disarms the timeout, and from then on the call keeps
  its outcome whatever happens later: a late or repeated response and a later timer
  event change nothing.
\<close>

theorem command_settles_exactly_once:
  fixes evs later :: "event list"
  defines "s \<equiv> fst (run new_session evs)"
  assumes "promises s i = Some Pending"
  shows "CommandHandler i \<in> set (listeners s)
       \<and> (\<exists>m ps. timers s i = Some m
             \<and> \<lparr>out_id = i, out_method = m, out_params = ps\<rparr> \<in> set (sent s)
             \<and> promises (fst (step s (TimerFired i))) i
                 = Some (Rejected (Error (''Command timeout: '' @ m))))
       \<and> promises (fst (step s (Receive (command_result i r) es))) i = Some (Resolved r)
       \<and> promises (fst (step s (Receive (command_error i e) es))) i
           = Some (Rejected (Error (error_text e)))
       \<and> (\<forall>ev\<in>{TimerFired i, Receive (command_result i r) es, Receive (command_error i e) es}.
            CommandHandler i \<notin> set (listeners (fst (step s ev)))
          \<and> timers (fst (step s ev)) i = None
          \<and> promises (fst (run (fst (step s ev)) later)) i = promises (fst (step s ev)) i)"
proof -
  have ok: "session_ok s" unfolding s_def by (rule ok_reachable_session)
  note p = assms(2)
  from pending_armed [OF ok p] obtain m ps where
    h: "CommandHandler i \<in> set (listeners s)" and t: "timers s i = Some m"
    and sent: "\<lparr>out_id = i, out_method = m, out_params = ps\<rparr> \<in> set (sent s)"
    by blast
  note timer = step_timer_fired [OF p t]
  note res = step_command_result(3) [OF ok p, of r es]
  note err = step_command_error [OF ok p, of e es]
  have after: "CommandHandler i \<notin> set (listeners (fst (step s ev)))
          \<and> timers (fst (step s ev)) i = None
          \<and> promises (fst (run (fst (step s ev)) later)) i = promises (fst (step s ev)) i"
    if "promises (fst (step s ev)) i = Some out" and "out \<noteq> Pending" for ev out
  proof -
    have ok': "session_ok (fst (step s ev))" by (rule ok_step [OF ok])
    from that have "promises (fst (step s ev)) i \<noteq> Some Pending" by simp
    from settled_disarmed [OF ok' this] settled_run [OF that(2) ok' that(1), of later] that(1)
    show ?thesis by simp
  qed
  from after [OF timer] after [OF res] after [OF err]
  have "\<forall>ev\<in>{TimerFired i, Receive (command_result i r) es, Receive (command_error i e) es}.
            CommandHandler i \<notin> set (listeners (fst (step s ev)))
          \<and> timers (fst (step s ev)) i = None
          \<and> promises (fst (run (fst (step s ev)) later)) i = promises (fst (step s ev)) i"
    by simp
  with h t sent timer res err show ?thesis by blast
qed

theorem command_settles_exactly_once_witness:
  "promises (fst (run new_session [SendCommand ''SlowCommand'' None])) 1 = Some Pending
   \<and> promises (fst (step (fst (run new_session [SendCommand ''SlowCommand'' None]))
        (TimerFired 1))) 1
       = Some (Rejected (Error ''Command timeout: SlowCommand''))
   \<and> promises (fst (run (fst (step (fst (run new_session [SendCommand ''SlowCommand'' None]))
        (TimerFired 1)))
        [Receive (command_result 1 (Some JNull))
           (\<lambda>n. \<lparr>now_id = 0, random_suffix = '''', now_ts = 0\<rparr>), TimerFired 1])) 1
       = Some (Rejected (Error ''Command timeout: SlowCommand''))"
proof -
  let ?s = "fst (run new_session [SendCommand ''SlowCommand'' None])"
  have pending: "promises ?s 1 = Some Pending"
    by (simp add: new_session_def new_context_def sendCommand_def Let_def)
  have fired: "promises (fst (step ?s (TimerFired 1))) 1
       = Some (Rejected (Error ''Command timeout: SlowCommand''))"
    by (simp add: new_session_def new_context_def sendCommand_def Let_def
          timeout_callback_def settle_def)
  from command_settles_exactly_once [OF pending, THEN conjunct2, THEN conjunct2,
      THEN conjunct2, THEN conjunct2, THEN bspec, of "TimerFired 1" "Some JNull"
      "\<lambda>n. \<lparr>now_id = 0, random_suffix = '''', now_ts = 0\<rparr>" _
      "[Receive (command_result 1 (Some JNull))
           (\<lambda>n. \<lparr>now_id = 0, random_suffix = '''', now_ts = 0\<rparr>), TimerFired 1]"]
  have "promises (fst (run (fst (step ?s (TimerFired 1)))
        [Receive (command_result 1 (Some JNull))
           (\<lambda>n. \<lparr>now_id = 0, random_suffix = '''', now_ts = 0\<rparr>), TimerFired 1])) 1
       = promises (fst (step ?s (TimerFired 1))) 1"
    by simp
  with pending fired show ?thesis by simp
qed

text \<open>
  C4 (amended). When the socket closes while commands are pending, no command is failed
  at closure time: the context has no listener for the closure, so every promise, every
  handler and every timeout is as before. Each command that was pending stays pending
  with its timeout armed, and is rejected with "Command timeout: method" when that
  timeout fires.
\<close>

theorem close_leaves_commands_pending:
  fixes evs :: "event list"
  defines "s \<equiv> fst (run new_session evs)"
  shows "promises (fst (step s Close)) = promises s
       \<and> timers (fst (step s Close)) = timers s
       \<and> listeners (fst (step s Close)) = listeners s
       \<and> snd (step s Close) = None
       \<and> (promises s i = Some Pending \<longrightarrow>
            promises (fst (step s Close)) i = Some Pending
          \<and> (\<exists>m. timers (fst (step s Close)) i = Some m
               \<and> promises (fst (run s [Close, TimerFired i])) i
                   = Some (Rejected (Error (''Command timeout: '' @ m)))))"
proof -
  have ok: "session_ok s" unfolding s_def by (rule ok_reachable_session)
  have "\<exists>m. timers (fst (step s Close)) i = Some m
               \<and> promises (fst (run s [Close, TimerFired i])) i
                   = Some (Rejected (Error (''Command timeout: '' @ m)))"
    if p: "promises s i = Some Pending"
  proof -
    from pending_armed(2) [OF ok p] obtain m where t: "timers s i = Some m" by blast
    with p have "promises (fst (run s [Close, TimerFired i])) i
                   = Some (Rejected (Error (''Command timeout: '' @ m)))"
      by (simp add: timeout_callback_def settle_apply)
    with t show ?thesis by simp
  qed
  then show ?thesis by simp
qed

theorem close_leaves_commands_pending_witness:
  "promises (fst (run new_session [SendCommand ''Page.enable'' None])) 1 = Some Pending
   \<and> promises (fst (run (fst (run new_session [SendCommand ''Page.enable'' None]))
        [Close, TimerFired 1])) 1
       = Some (Rejected (Error ''Command timeout: Page.enable''))"
proof -
  let ?s = "fst (run new_session [SendCommand ''Page.enable'' None])"
  have pending: "promises ?s 1 = Some Pending"
    by (simp add: new_session_def new_context_def sendCommand_def Let_def)
  have t: "timers (fst (step ?s Close)) 1 = Some ''Page.enable''"
    by (simp add: new_session_def new_context_def sendCommand_def Let_def)
  from close_leaves_commands_pending [of "[SendCommand ''Page.enable'' None]" 1,
      THEN conjunct2, THEN conjunct2, THEN conjunct2, THEN conjunct2, THEN mp, OF pending]
  obtain m where "timers (fst (step ?s Close)) 1 = Some m"
    and "promises (fst (run ?s [Close, TimerFired 1])) 1
           = Some (Rejected (Error (''Command timeout: '' @ m)))"
    by blast
  with t pending show ?thesis by simp
qed

text \<open>
  The claim as the spec states it fails: a command sent before the socket closes is
  still pending after the closure.
\<close>

theorem pending_after_close:
  "promises (fst (run new_session [SendCommand ''Page.enable'' None, Close])) 1 = Some Pending"
  by (simp add: new_session_def new_context_def sendCommand_def Let_def)

text \<open>
  C2 (amended). A frame that fails to decode is discarded in that it changes nothing:
  the session after it is the session before it, so the notifications delivered before
  it stay aggregated and, where the dispatch goes on, those delivered after it are
  aggregated as if it had never arrived. But the listeners parse without a guard: when
  any listener is registered, the parser's SyntaxError escapes the dispatch of that frame
  (once, from the first listener; the others are not called).
\<close>

theorem undecodable_frame_throws_and_changes_nothing:
  fixes evs after :: "event list"
  defines "s \<equiv> fst (run new_session evs)"
  shows "step s (Receive NotJSON es) = (s, if listeners s = [] then None else Some SyntaxError)
       \<and> run s (Receive NotJSON es # after)
           = (fst (run s after),
              (if listeners s = [] then [] else [SyntaxError]) @ snd (run s after))
       \<and> console_listener e NotJSON this = (this, Some SyntaxError)
       \<and> network_listener e NotJSON st = (st, Some SyntaxError)
       \<and> feed console_listener this (fs @ (e, NotJSON) # gs)
           = (fst (feed console_listener this (fs @ gs)),
              snd (feed console_listener this fs) @ SyntaxError
                # snd (feed console_listener (fst (feed console_listener this fs)) gs))
       \<and> feed network_listener st (hs @ (e, NotJSON) # ks)
           = (fst (feed network_listener st (hs @ ks)),
              snd (feed network_listener st hs) @ SyntaxError
                # snd (feed network_listener (fst (feed network_listener st hs)) ks))"
proof -
  have "closures_ok s" unfolding s_def by (rule closures_reachable)
  note 1 = step_NotJSON [OF this, of es]
  have 2: "run s (Receive NotJSON es # after)
           = (fst (run s after),
              (if listeners s = [] then [] else [SyntaxError]) @ snd (run s after))"
    using 1 by (simp add: case_prod_unfold del: step.simps)
  have 3: "console_listener e NotJSON c = (c, Some SyntaxError)" for c
    by (simp add: console_listener_def)
  have 4: "network_listener e NotJSON c = (c, Some SyntaxError)" for c
    by (simp add: network_listener_def)
  have 5: "feed console_listener this (fs @ (e, NotJSON) # gs)
           = (fst (feed console_listener this (fs @ gs)),
              snd (feed console_listener this fs) @ SyntaxError
                # snd (feed console_listener (fst (feed console_listener this fs)) gs))"
    by (simp add: feed_append [of _ _ fs] 3 case_prod_unfold)
  have 6: "feed network_listener st (hs @ (e, NotJSON) # ks)
           = (fst (feed network_listener st (hs @ ks)),
              snd (feed network_listener st hs) @ SyntaxError
                # snd (feed network_listener (fst (feed network_listener st hs)) ks))"
    by (simp add: feed_append [of _ _ hs] 4 case_prod_unfold)
  from 1 2 3 4 5 6 show ?thesis by blast
qed

text \<open>
  The claim as the spec states it fails: with the console listener registered, the
  dispatch of a frame that is not JSON raises a SyntaxError.
\<close>

theorem undecodable_frame_raises:
  "snd (run new_session
     [SetupConsoleCollection,
      Receive NotJSON (\<lambda>n. \<lparr>now_id = 0, random_suffix = '''', now_ts = 0\<rparr>)])
   = [SyntaxError]"
  by (simp add: new_session_def setupConsoleCollection_def emit_def call_listener_def
        console_listener_def)

subsection \<open>Sessions with one collector\<close>

text \<open>
  In a session whose only listener is the console listener, or the network listener, a
  run of received frames is that listener fed the frames: what is proved of \<open>feed\<close>
  above holds of the context of such a session.
\<close>

lemma run_console_session:
  assumes "listeners s = [ConsoleCollector]"
  shows "run s (map (\<lambda>(e, p). Receive p (\<lambda>n. e)) fs)
           = (s\<lparr>ctx := fst (feed console_listener (ctx s) fs)\<rparr>,
              snd (feed console_listener (ctx s) fs))"
  using assms
proof (induction fs arbitrary: s)
  case Nil
  then show ?case by simp
next
  case (Cons f fs)
  obtain e p where f: "f = (e, p)" by (cases f)
  obtain this x where l: "console_listener e p (ctx s) = (this, x)"
    by (cases "console_listener e p (ctx s)")
  have st: "step s (Receive p (\<lambda>n. e)) = (s\<lparr>ctx := this\<rparr>, x)"
    using Cons.prems l by (cases x) (simp_all add: emit_def call_listener_def)
  have "listeners (s\<lparr>ctx := this\<rparr>) = [ConsoleCollector]" using Cons.prems by simp
  from Cons.IH [OF this] st l show ?case
    by (auto simp: f simp del: step.simps split: prod.splits option.splits)
qed

lemma run_network_session:
  assumes "listeners s = [NetworkCollector 0]" and "closures s = [requests]"
  shows "run s (map (\<lambda>(e, p). Receive p (\<lambda>n. e)) fs)
           = (s\<lparr>ctx := snd (fst (feed network_listener (requests, ctx s) fs)),
                closures := [fst (fst (feed network_listener (requests, ctx s) fs))]\<rparr>,
              snd (feed network_listener (requests, ctx s) fs))"
  using assms
proof (induction fs arbitrary: s requests)
  case Nil
  then show ?case by simp
next
  case (Cons f fs)
  obtain e p where f: "f = (e, p)" by (cases f)
  obtain requests' this x where l: "network_listener e p (requests, ctx s) = ((requests', this), x)"
    by (cases "network_listener e p (requests, ctx s)") auto
  have st: "step s (Receive p (\<lambda>n. e)) = (s\<lparr>ctx := this, closures := [requests']\<rparr>, x)"
    using Cons.prems l by (cases x) (simp_all add: emit_def call_listener_def)
  have "listeners (s\<lparr>ctx := this, closures := [requests']\<rparr>) = [NetworkCollector 0]"
    and "closures (s\<lparr>ctx := this, closures := [requests']\<rparr>) = [requests']"
    using Cons.prems by simp_all
  from Cons.IH [OF this] st l show ?case
    by (auto simp: f simp del: step.simps split: prod.splits option.splits)
qed

end
